theory Spec2Isabelle
  imports Complex_Main "HOL-Library.Word"
begin

unbundle bit_operations_syntax

section \<open>Checksum.hpp\<close>

text \<open>
  \<^verbatim>\<open>ChecksumBase<Bits, AlgoTag>\<close> has one member, the array
  \<^verbatim>\<open>std::array<uint8_t, Bits / 8> data\<close>; a checksum is modelled as that array, a
  list of bytes. Its defaulted \<^verbatim>\<open>operator==\<close> is the equality of the arrays.
\<close>

type_synonym uint8 = "8 word"

type_synonym ChecksumBase = "uint8 list"

definition size_bytes :: "nat \<Rightarrow> nat" where
  "size_bytes Bits = Bits div 8"

text \<open>
  What \<^verbatim>\<open>ss << std::hex << static_cast<int>(d)\<close> writes for a non-negative
  integer: its digits in base 16, most significant first, in lower case and without a
  base prefix (neither \<^verbatim>\<open>std::uppercase\<close> nor \<^verbatim>\<open>std::showbase\<close> is set).
\<close>

definition hex_digit :: "nat \<Rightarrow> char" where
  "hex_digit n = ''0123456789abcdef'' ! n"

fun hex :: "nat \<Rightarrow> string" where
  "hex n = (if n < 16 then [hex_digit n] else hex (n div 16) @ [hex_digit (n mod 16)])"

text \<open>
  \<^verbatim>\<open>std::setw(w)\<close> with \<^verbatim>\<open>std::setfill(c)\<close>: an output shorter than
  \<^verbatim>\<open>w\<close> is filled up to the width, on the left under the stream's default
  adjustment; a longer one is written as it is.
\<close>

definition setw_setfill :: "nat \<Rightarrow> char \<Rightarrow> string \<Rightarrow> string" where
  "setw_setfill w c s = replicate (w - length s) c @ s"

text \<open>
  \<^verbatim>\<open>hexDigest\<close>: the loop over \<^verbatim>\<open>data\<close> appends to the string stream
  \<^verbatim>\<open>ss\<close>; \<^verbatim>\<open>static_cast<int>(d)\<close> of a \<^verbatim>\<open>uint8_t\<close> is its unsigned value.
\<close>

definition hexDigest :: "ChecksumBase \<Rightarrow> string" where
  "hexDigest data =
     foldl (\<lambda>ss d. ss @ setw_setfill 2 (CHR ''0'') (hex (unat d))) [] data"

subsection \<open>Sha256\<close>

text \<open>
  Modelled from the spec: \<^verbatim>\<open>SHA256_Init\<close>, \<^verbatim>\<open>SHA256_Update\<close> and
  \<^verbatim>\<open>SHA256_Final\<close>, which \<^verbatim>\<open>Sha256::hash\<close> calls, are functions of OpenSSL
  and not under the sources. The spec names the hash SHA-256; they are modelled by
  that function as FIPS 180-4 defines it, on 32-bit words:
  the message is padded with the byte \<open>0x80\<close>, zero bytes and its length in bits as
  a 64-bit big-endian number, and each block of 64 bytes is compressed into the state
  of eight words.
\<close>

type_synonym uint32 = "32 word"


definition rotr :: "nat \<Rightarrow> uint32 \<Rightarrow> uint32" where
  "rotr n x = (drop_bit n x) OR (push_bit (32 - n) x)"

definition Ch :: "uint32 \<Rightarrow> uint32 \<Rightarrow> uint32 \<Rightarrow> uint32" where
  "Ch x y z = (x AND y) XOR (NOT x AND z)"
definition Maj :: "uint32 \<Rightarrow> uint32 \<Rightarrow> uint32 \<Rightarrow> uint32" where
  "Maj x y z = (x AND y) XOR (x AND z) XOR (y AND z)"
definition Sigma0 :: "uint32 \<Rightarrow> uint32" where
  "Sigma0 x = rotr 2 x XOR rotr 13 x XOR rotr 22 x"
definition Sigma1 :: "uint32 \<Rightarrow> uint32" where
  "Sigma1 x = rotr 6 x XOR rotr 11 x XOR rotr 25 x"
definition sigma0 :: "uint32 \<Rightarrow> uint32" where
  "sigma0 x = rotr 7 x XOR rotr 18 x XOR drop_bit 3 x"
definition sigma1 :: "uint32 \<Rightarrow> uint32" where
  "sigma1 x = rotr 17 x XOR rotr 19 x XOR drop_bit 10 x"

text \<open>
  The round constants and the initial state, in decimal: the first 32 bits of the
  fractional parts of the cube roots of the first 64 primes and of the square roots
  of the first 8.
\<close>

definition K256 :: "uint32 list" where
  "K256 =
     [1116352408, 1899447441, 3049323471, 3921009573, 961987163, 1508970993,
      2453635748, 2870763221, 3624381080, 310598401, 607225278, 1426881987,
      1925078388, 2162078206, 2614888103, 3248222580, 3835390401, 4022224774,
      264347078, 604807628, 770255983, 1249150122, 1555081692, 1996064986,
      2554220882, 2821834349, 2952996808, 3210313671, 3336571891, 3584528711,
      113926993, 338241895, 666307205, 773529912, 1294757372, 1396182291,
      1695183700, 1986661051, 2177026350, 2456956037, 2730485921, 2820302411,
      3259730800, 3345764771, 3516065817, 3600352804, 4094571909, 275423344,
      430227734, 506948616, 659060556, 883997877, 958139571, 1322822218,
      1537002063, 1747873779, 1955562222, 2024104815, 2227730452, 2361852424,
      2428436474, 2756734187, 3204031479, 3329325298]"

definition H256 :: "uint32 list" where
  "H256 =
     [1779033703, 3144134277, 1013904242, 2773480762, 1359893119, 2600822924,
      528734635, 1541459225]"

fun be_words :: "uint8 list \<Rightarrow> uint32 list" where
  "be_words (a # b # c # d # bs) =
     (push_bit 24 (ucast a) OR push_bit 16 (ucast b) OR push_bit 8 (ucast c) OR ucast d) # be_words bs"
| "be_words bs = []"

definition be_bytes :: "uint32 \<Rightarrow> uint8 list" where
  "be_bytes w = [ucast (drop_bit 24 w), ucast (drop_bit 16 w), ucast (drop_bit 8 w), ucast w]"

definition schedule_step :: "uint32 list \<Rightarrow> uint32 list" where
  "schedule_step w = (let n = length w in
     w @ [sigma1 (w ! (n - 2)) + w ! (n - 7) + sigma0 (w ! (n - 15)) + w ! (n - 16)])"

definition schedule :: "uint32 list \<Rightarrow> uint32 list" where
  "schedule w = fold (\<lambda>t. schedule_step) [16..<64] w"

fun sha256_round :: "uint32 \<times> uint32 \<Rightarrow> uint32 list \<Rightarrow> uint32 list" where
  "sha256_round (k, w) [a, b, c, d, e, f, g, h] =
     (let T1 = h + Sigma1 e + Ch e f g + k + w;
          T2 = Sigma0 a + Maj a b c
      in [T1 + T2, a, b, c, d + T1, e, f, g])"
| "sha256_round (k, w) s = s"

definition compress :: "uint32 list \<Rightarrow> uint8 list \<Rightarrow> uint32 list" where
  "compress hs block =
     map2 (+) hs (fold sha256_round (zip K256 (schedule (be_words block))) hs)"

function sha256_blocks :: "uint32 list \<Rightarrow> uint8 list \<Rightarrow> uint32 list \<times> uint8 list" where
  "sha256_blocks hs bs = (if length bs < 64 then (hs, bs)
                   else sha256_blocks (compress hs (take 64 bs)) (drop 64 bs))"
  by pat_completeness auto
termination
  by (relation "measure (\<lambda>(hs, bs). length bs)") auto

definition be_bytes64 :: "64 word \<Rightarrow> uint8 list" where
  "be_bytes64 w = [ucast (drop_bit 56 w), ucast (drop_bit 48 w), ucast (drop_bit 40 w),
     ucast (drop_bit 32 w), ucast (drop_bit 24 w), ucast (drop_bit 16 w),
     ucast (drop_bit 8 w), ucast w]"

record SHA256_CTX =
  hstate :: "uint32 list"
  pending :: "uint8 list"
  Nl :: nat

definition SHA256_Init :: SHA256_CTX where
  "SHA256_Init = \<lparr>hstate = H256, pending = [], Nl = 0\<rparr>"

definition SHA256_Update :: "SHA256_CTX \<Rightarrow> uint8 list \<Rightarrow> SHA256_CTX" where
  "SHA256_Update ctx bytes =
     (let (hs, rest) = sha256_blocks (hstate ctx) (pending ctx @ bytes)
      in \<lparr>hstate = hs, pending = rest, Nl = Nl ctx + length bytes\<rparr>)"

definition sha256_pad :: "nat \<Rightarrow> uint8 list" where
  "sha256_pad len =
     0x80 # replicate ((119 - len mod 64) mod 64) 0 @ be_bytes64 (word_of_nat (8 * len))"

definition SHA256_Final :: "SHA256_CTX \<Rightarrow> ChecksumBase" where
  "SHA256_Final ctx =
     concat (map be_bytes (fst (sha256_blocks (hstate ctx) (pending ctx @ sha256_pad (Nl ctx)))))"

text \<open>
  \<^verbatim>\<open>Sha256::hash(std::string_view contents)\<close>; a \<^verbatim>\<open>char\<close> of the contents is
  read as the byte with the same eight bits.
\<close>

definition Sha256_hash :: "string \<Rightarrow> ChecksumBase" where
  "Sha256_hash contents = SHA256_Final (SHA256_Update SHA256_Init (map of_char contents))"

section \<open>Merkle.hpp: the data model\<close>

type_synonym hash_algo = "string \<Rightarrow> ChecksumBase"

record MerkleNodeData =
  checksum :: ChecksumBase
  chunk_offset :: nat
  chunk_size :: nat

text \<open>
  Nodes live behind \<^verbatim>\<open>std::shared_ptr\<close>; the model keeps them in a store, a list
  of nodes in which a pointer is an index and the null pointer is \<open>None\<close>.
  \<^verbatim>\<open>std::make_shared\<close> appends a node whose three pointers are null, as the
  constructor \<^verbatim>\<open>MerkleNode(MerkleNodeData&&)\<close> leaves them, and returns its address.
  No node is released while a tree is being built or compared.
\<close>

type_synonym addr = nat

record MerkleNode =
  data :: MerkleNodeData
  parent :: "addr option"
  left :: "addr option"
  right :: "addr option"

type_synonym heap = "MerkleNode list"

definition make_shared :: "heap \<Rightarrow> MerkleNodeData \<Rightarrow> heap \<times> addr" where
  "make_shared h d = (h @ [\<lparr>data = d, parent = None, left = None, right = None\<rparr>], length h)"

text \<open>
  \<^verbatim>\<open>isRoot\<close> is \<^verbatim>\<open>!parent.lock()\<close>: since no node is released, locking the
  weak pointer gives null exactly when the weak pointer is empty.
\<close>

definition isRoot :: "MerkleNode \<Rightarrow> bool" where
  "isRoot n = (parent n = None)"

definition isLeaf :: "MerkleNode \<Rightarrow> bool" where
  "isLeaf n = (left n = None \<and> right n = None)"

definition MerkleNodeData_eq :: "MerkleNodeData \<Rightarrow> MerkleNodeData \<Rightarrow> bool" where
  "MerkleNodeData_eq a b =
     (checksum a = checksum b \<and> chunk_offset a = chunk_offset b \<and> chunk_size a = chunk_size b)"

definition MerkleNode_eq :: "MerkleNode \<Rightarrow> MerkleNode \<Rightarrow> bool" where
  "MerkleNode_eq n other =
     (if isRoot n \<noteq> isRoot other then False
      else if isLeaf n \<noteq> isLeaf other then False
      else MerkleNodeData_eq (data n) (data other))"

record MerkleTree =
  m_ChunkSize :: nat
  root :: "addr option"

definition MerkleTree_eq :: "heap \<Rightarrow> MerkleTree \<Rightarrow> MerkleTree \<Rightarrow> bool" where
  "MerkleTree_eq h t other =
     (case (root t, root other) of
        (Some r, Some r') \<Rightarrow> MerkleNode_eq (h ! r) (h ! r')
      | _ \<Rightarrow> False)"

section \<open>Machine integers and failures\<close>

text \<open>
  \<^verbatim>\<open>std::size_t\<close> has 64 bits and its arithmetic wraps; \<^verbatim>\<open>std::streamsize\<close>
  is the signed type of 64 bits, and the cast of a \<^verbatim>\<open>std::size_t\<close> to it keeps the
  bits; \<^verbatim>\<open>int\<close> has 32 bits, and \<^verbatim>\<open>std::vector<char>\<close> holds at most
  \<open>2^63 - 1\<close> characters.
\<close>

definition to_size_t :: "nat \<Rightarrow> nat" where
  "to_size_t n = n mod 2 ^ 64"

definition to_streamsize :: "nat \<Rightarrow> int" where
  "to_streamsize n =
     (if n mod 2 ^ 64 < 2 ^ 63 then int (n mod 2 ^ 64) else int (n mod 2 ^ 64) - 2 ^ 64)"

definition INT_MAX :: nat where
  "INT_MAX = 2 ^ 31 - 1"

definition max_size :: nat where
  "max_size = 2 ^ 63 - 1"

text \<open>
  What ends a construction without a tree: a failing \<^verbatim>\<open>assert\<close>, the exception
  \<^verbatim>\<open>std::length_error\<close> of a vector that is too long, and two kinds of undefined
  behaviour, an index past the end of a vector and the overflow of an \<^verbatim>\<open>int\<close>.
  Running out of memory (\<^verbatim>\<open>std::bad_alloc\<close>) is not modelled.
\<close>

datatype error = AssertionFailure | OutOfRange | LengthError | IntOverflow

section \<open>The input stream\<close>

text \<open>
  The part of \<^verbatim>\<open>std::istringstream\<close> that \<^verbatim>\<open>generate_leaves\<close> uses: the
  characters not yet read, the state bits \<^verbatim>\<open>eofbit\<close> and \<^verbatim>\<open>failbit\<close>, and the
  count of the last unformatted read. \<^verbatim>\<open>read(s, n)\<close>, with \<^verbatim>\<open>n\<close> a
  \<^verbatim>\<open>std::streamsize\<close>, on a stream that is not good sets \<^verbatim>\<open>failbit\<close> and
  extracts nothing; on a good stream it extracts up to \<^verbatim>\<open>n\<close> characters into
  \<^verbatim>\<open>s\<close> (none for a negative \<^verbatim>\<open>n\<close>) and sets both bits when the number
  extracted is not \<^verbatim>\<open>n\<close>. With \<^verbatim>\<open>n = 0\<close> it extracts nothing and sets no
  bit.
\<close>

record istringstream =
  unread :: string
  eofbit :: bool
  failbit :: bool
  gcount :: nat

definition istringstream_ctor :: "string \<Rightarrow> istringstream" where
  "istringstream_ctor contents = \<lparr>unread = contents, eofbit = False, failbit = False, gcount = 0\<rparr>"

definition eof :: "istringstream \<Rightarrow> bool" where
  "eof s = eofbit s"

definition good :: "istringstream \<Rightarrow> bool" where
  "good s = (\<not> eofbit s \<and> \<not> failbit s)"

definition read :: "istringstream \<Rightarrow> string \<Rightarrow> int \<Rightarrow> istringstream \<times> string" where
  "read s buf n =
     (if \<not> good s then (s\<lparr>failbit := True, gcount := 0\<rparr>, buf)
      else let got = take (nat n) (unread s) in
        (s\<lparr>unread := drop (nat n) (unread s), eofbit := (int (length got) \<noteq> n),
           failbit := (int (length got) \<noteq> n), gcount := length got\<rparr>,
         got @ drop (length got) buf))"

section \<open>Merkle.hpp: generate_leaves\<close>

record leaves_state =
  stream :: istringstream
  nodes :: heap
  result :: "addr list"
  read_offset :: nat

text \<open>
  One run of the body of \<^verbatim>\<open>while (!stream.eof())\<close>: the buffer of
  \<^verbatim>\<open>m_ChunkSize\<close> characters is zeroed, the stream is read into it with the
  count \<^verbatim>\<open>static_cast<std::streamsize>(m_ChunkSize)\<close>, and a read of at least one
  byte appends a leaf; \<^verbatim>\<open>read_offset += bytes_read\<close> is an addition in
  \<^verbatim>\<open>std::size_t\<close>.
\<close>

definition generate_leaves_body :: "hash_algo \<Rightarrow> nat \<Rightarrow> leaves_state \<Rightarrow> leaves_state" where
  "generate_leaves_body hash chunk st =
     (let buf = replicate chunk (CHR 0x00);
          (stream', buf') = read (stream st) buf (to_streamsize chunk);
          bytes_read = gcount stream'
      in if bytes_read \<noteq> 0 then
           let (h', node) = make_shared (nodes st)
                 \<lparr>checksum = hash (take bytes_read buf'),
                  chunk_offset = read_offset st,
                  chunk_size = bytes_read\<rparr>
           in st\<lparr>stream := stream', nodes := h', result := result st @ [node],
                 read_offset := to_size_t (read_offset st + bytes_read)\<rparr>
         else st\<lparr>stream := stream'\<rparr>)"

text \<open>The loop may run forever; \<open>None\<close> is "does not return".\<close>

partial_function (option) generate_leaves_while ::
  "hash_algo \<Rightarrow> nat \<Rightarrow> leaves_state \<Rightarrow> leaves_state option" where
  "generate_leaves_while hash chunk st =
     (if eof (stream st) then Some st
      else generate_leaves_while hash chunk (generate_leaves_body hash chunk st))"

text \<open>
  \<^verbatim>\<open>generate_leaves\<close> first allocates the buffer,
  \<^verbatim>\<open>std::vector<char> buf(m_ChunkSize, 0)\<close>, which throws
  \<^verbatim>\<open>std::length_error\<close> for a size above \<^verbatim>\<open>max_size()\<close>; nothing catches the
  exception, so the construction ends with it. The sizes that pass are below
  \<open>2^63\<close>, and their cast to \<^verbatim>\<open>std::streamsize\<close> keeps the value.
\<close>

definition generate_leaves ::
  "hash_algo \<Rightarrow> nat \<Rightarrow> heap \<Rightarrow> istringstream \<Rightarrow> (error + heap \<times> addr list) option" where
  "generate_leaves hash chunk h strm =
     (if max_size < chunk then Some (Inl LengthError)
      else map_option (\<lambda>st. Inr (nodes st, result st))
             (generate_leaves_while hash chunk
                \<lparr>stream = strm, nodes = h, result = [], read_offset = 0\<rparr>))"

section \<open>Merkle.hpp: make_tree\<close>

text \<open>
  \<^verbatim>\<open>prev.size() - 1\<close> is computed in \<^verbatim>\<open>std::size_t\<close> (64 bits): a size is
  below \<open>2^64\<close>, and the subtraction wraps for the size 0 only.
\<close>

definition size_minus_1 :: "nat \<Rightarrow> nat" where
  "size_minus_1 n = (if n = 0 then 2 ^ 64 - 1 else n - 1)"

text \<open>
  \<^verbatim>\<open>std::string(chunk.begin(), chunk.end())\<close>: each \<^verbatim>\<open>uint8_t\<close> of the two
  digests becomes the \<^verbatim>\<open>char\<close> with the same eight bits.
\<close>

definition string_of_bytes :: "uint8 list \<Rightarrow> string" where
  "string_of_bytes chunk = map (\<lambda>b. char_of (unat b)) chunk"

text \<open>
  The loop \<^verbatim>\<open>for (auto i = 0; i < prev.size() - 1; i += 2)\<close>, from the index
  \<open>i\<close> on. The counter is an \<^verbatim>\<open>int\<close>, converted to \<^verbatim>\<open>std::size_t\<close> for
  the comparison and the indexing: \<^verbatim>\<open>i += 2\<close> beyond \<^verbatim>\<open>INT_MAX\<close> is undefined
  behaviour, the error \<open>IntOverflow\<close>, which a level of \<open>2^31\<close> nodes or more
  reaches. An index past the end of \<^verbatim>\<open>prev\<close> is undefined behaviour too, the
  error \<open>OutOfRange\<close>. The span of a parent is a sum in \<^verbatim>\<open>std::size_t\<close>.
\<close>

function pair_loop ::
  "hash_algo \<Rightarrow> addr list \<Rightarrow> nat \<Rightarrow> heap \<times> addr list \<Rightarrow> error + heap \<times> addr list" where
  "pair_loop hash prev i (h, level) =
     (if i < size_minus_1 (length prev) then
        if i + 1 < length prev then
          let data_l = checksum (data (h ! (prev ! i)));
              data_r = checksum (data (h ! (prev ! (i + 1))));
              chunk = data_l @ data_r;
              (h', node) = make_shared h
                 \<lparr>checksum = hash (string_of_bytes chunk),
                  chunk_offset = chunk_offset (data (h ! (prev ! i))),
                  chunk_size = to_size_t (chunk_size (data (h ! (prev ! i)))
                                        + chunk_size (data (h ! (prev ! (i + 1)))))\<rparr>;
              h'' = h'[node := (h' ! node)\<lparr>left := Some (prev ! i)\<rparr>];
              h''' = h''[node := (h'' ! node)\<lparr>right := Some (prev ! (i + 1))\<rparr>]
          in if INT_MAX < i + 2 then Inl IntOverflow
             else pair_loop hash prev (i + 2) (h''', level @ [node])
        else Inl OutOfRange
      else Inr (h, level))"
  by pat_completeness auto
termination
  by (relation "measure (\<lambda>(hash, prev, i, s). size_minus_1 (length prev) - i)") auto

text \<open>One pass of the outer loop: the pairs, then the odd tail.\<close>

definition reduce_level :: "hash_algo \<Rightarrow> heap \<Rightarrow> addr list \<Rightarrow> error + heap \<times> addr list" where
  "reduce_level hash h prev =
     (case pair_loop hash prev 0 (h, []) of
        Inl e \<Rightarrow> Inl e
      | Inr (h', level) \<Rightarrow>
          Inr (h', if length prev mod 2 \<noteq> 0 then level @ [last prev] else level))"

text \<open>
  \<^verbatim>\<open>_i < tree_height\<close> with \<^verbatim>\<open>tree_height = std::log2(leaves.size())\<close>, a
  \<^verbatim>\<open>double\<close>. With the logarithm taken exactly, \<open>_i < log2 n\<close> is
  \<open>2 ^ _i < n\<close>, and \<^verbatim>\<open>std::log2(0)\<close> is minus infinity, below every \<open>_i\<close>.
  For fewer than \<open>2^31\<close> leaves the comparison in \<^verbatim>\<open>double\<close> gives the same:
  the count is converted exactly, \<^verbatim>\<open>std::log2\<close> is exact at the powers of two,
  and elsewhere \<open>log2 n\<close> is further than \<open>2^-31\<close> from an integer, far more than
  the error of the function. For \<open>2^31\<close> leaves or more the two can differ (from
  \<open>2^49 + 1\<close> leaves on); there only the comparison at \<open>_i = 0\<close> is reached, where
  both hold, since the first pass ends in \<open>IntOverflow\<close>. What is proved of the loop
  is proved for fewer than \<open>2^31\<close> leaves.
\<close>

definition below_tree_height :: "nat \<Rightarrow> nat \<Rightarrow> bool" where
  "below_tree_height i n = (2 ^ i < n)"

function make_tree_loop ::
  "hash_algo \<Rightarrow> nat \<Rightarrow> nat \<Rightarrow> heap \<times> addr list list \<Rightarrow> error + heap \<times> addr list list" where
  "make_tree_loop hash n i (h, tree) =
     (if below_tree_height i n then
        case reduce_level hash h (last tree) of
          Inl e \<Rightarrow> Inl e
        | Inr (h', level) \<Rightarrow> make_tree_loop hash n (i + 1) (h', tree @ [level])
      else Inr (h, tree))"
  by pat_completeness auto
termination
  by (relation "measure (\<lambda>(hash, n, i, s). n - 2 ^ i)")
     (auto simp: below_tree_height_def intro!: diff_less_mono2)

text \<open>
  \<^verbatim>\<open>make_tree\<close> returns the store and the address it assigns to
  \<^verbatim>\<open>root\<close>. The \<^verbatim>\<open>assert\<close> is taken as compiled in: when it fails the
  program aborts, the error \<open>AssertionFailure\<close> (without it, \<^verbatim>\<open>front()\<close> of an
  empty level would be undefined behaviour).
\<close>

definition make_tree :: "hash_algo \<Rightarrow> heap \<Rightarrow> addr list \<Rightarrow> error + heap \<times> addr" where
  "make_tree hash h leaves =
     (case make_tree_loop hash (length leaves) 0 (h, [leaves]) of
        Inl e \<Rightarrow> Inl e
      | Inr (h', tree) \<Rightarrow>
          if length (last tree) = 1 then Inr (h', hd (last tree))
          else Inl AssertionFailure)"

text \<open>
  The constructor \<^verbatim>\<open>MerkleTree(std::string_view contents, std::size_t chunk_size)\<close>:
  \<open>None\<close> when it does not return, \<open>Some (Inl e)\<close> when it ends without a
  tree, otherwise the store and the tree. A \<^verbatim>\<open>std::string_view\<close> has a size
  below \<open>2^64\<close>.
\<close>

definition MerkleTree_ctor ::
  "hash_algo \<Rightarrow> heap \<Rightarrow> string \<Rightarrow> nat \<Rightarrow> (error + heap \<times> MerkleTree) option" where
  "MerkleTree_ctor hash h contents chunk =
     (case generate_leaves hash chunk h (istringstream_ctor contents) of
        None \<Rightarrow> None
      | Some (Inl e) \<Rightarrow> Some (Inl e)
      | Some (Inr (h', leaves)) \<Rightarrow>
          Some (case make_tree hash h' leaves of
                  Inl e \<Rightarrow> Inl e
                | Inr (h'', r) \<Rightarrow> Inr (h'', \<lparr>m_ChunkSize = chunk, root = Some r\<rparr>)))"

section \<open>Functions used to state what the code computes\<close>

text \<open>The chunks that successive reads of up to \<open>c\<close> characters take from \<open>s\<close>.\<close>

function chunks :: "nat \<Rightarrow> string \<Rightarrow> string list" where
  "chunks c s = (if c = 0 \<or> s = [] then [] else take c s # chunks c (drop c s))"
  by pat_completeness auto
termination
  by (relation "measure (\<lambda>(c, s). length s)") auto

text \<open>The data of the leaves of a sequence of chunks whose first begins at \<open>off\<close>.\<close>

fun leaf_data :: "hash_algo \<Rightarrow> nat \<Rightarrow> string list \<Rightarrow> MerkleNodeData list" where
  "leaf_data hash off [] = []"
| "leaf_data hash off (x # xs) =
     \<lparr>checksum = hash x, chunk_offset = off, chunk_size = length x\<rparr>
       # leaf_data hash (off + length x) xs"

definition leaf_node :: "MerkleNodeData \<Rightarrow> MerkleNode" where
  "leaf_node d = \<lparr>data = d, parent = None, left = None, right = None\<rparr>"

text \<open>The data that \<^verbatim>\<open>make_tree\<close> gives the parent of two nodes.\<close>

definition parent_data :: "hash_algo \<Rightarrow> MerkleNodeData \<Rightarrow> MerkleNodeData \<Rightarrow> MerkleNodeData" where
  "parent_data hash l r =
     \<lparr>checksum = hash (string_of_bytes (checksum l @ checksum r)),
      chunk_offset = chunk_offset l,
      chunk_size = to_size_t (chunk_size l + chunk_size r)\<rparr>"

definition parent_node :: "hash_algo \<Rightarrow> heap \<Rightarrow> addr \<times> addr \<Rightarrow> MerkleNode" where
  "parent_node hash h p =
     \<lparr>data = parent_data hash (data (h ! fst p)) (data (h ! snd p)),
      parent = None, left = Some (fst p), right = Some (snd p)\<rparr>"

text \<open>Adjacent pairs \<open>(0,1), (2,3), \<dots>\<close> of a level; an odd last element is in no pair.\<close>

fun pairs :: "'a list \<Rightarrow> ('a \<times> 'a) list" where
  "pairs (x # y # xs) = (x, y) # pairs xs"
| "pairs xs = []"

text \<open>The level above a level, and the store once that level is built.\<close>

definition level_above :: "heap \<Rightarrow> addr list \<Rightarrow> addr list" where
  "level_above h prev =
     [length h ..< length h + length prev div 2]
       @ (if length prev mod 2 \<noteq> 0 then [last prev] else [])"

definition heap_above :: "hash_algo \<Rightarrow> heap \<Rightarrow> addr list \<Rightarrow> heap" where
  "heap_above hash h prev = h @ map (parent_node hash h) (pairs prev)"

text \<open>A level of a tree under construction: not empty, every pointer into the store.\<close>

definition valid_level :: "heap \<Rightarrow> addr list \<Rightarrow> bool" where
  "valid_level h lvl = (lvl \<noteq> [] \<and> list_all (\<lambda>a. a < length h) lvl)"

definition level_data :: "heap \<Rightarrow> addr list \<Rightarrow> MerkleNodeData list" where
  "level_data h lvl = map (\<lambda>a. data (h ! a)) lvl"

text \<open>One pass of \<^verbatim>\<open>make_tree\<close> on the data of a level.\<close>

fun reduce_data :: "hash_algo \<Rightarrow> MerkleNodeData list \<Rightarrow> MerkleNodeData list" where
  "reduce_data hash (x # y # xs) = parent_data hash x y # reduce_data hash xs"
| "reduce_data hash xs = xs"

text \<open>
  The nodes of a level cover the bytes from \<open>off\<close> to \<open>e\<close> in order, without gap
  or overlap.
\<close>

fun tiles :: "nat \<Rightarrow> MerkleNodeData list \<Rightarrow> nat \<Rightarrow> bool" where
  "tiles off [] e = (off = e)"
| "tiles off (d # ds) e = (chunk_offset d = off \<and> tiles (off + chunk_size d) ds e)"

text \<open>
  What holds of every node that a construction adds to a store which had \<open>n0\<close>
  nodes: its parent pointer is null, its digest has \<open>L\<close> bytes, and it has either no
  child or two, both added by the same construction before it, from whose data the
  node's data is computed, with spans whose sum does not wrap.
\<close>

definition node_ok :: "hash_algo \<Rightarrow> nat \<Rightarrow> nat \<Rightarrow> heap \<Rightarrow> addr \<Rightarrow> bool" where
  "node_ok hash L n0 h a =
     (parent (h ! a) = None \<and> length (checksum (data (h ! a))) = L \<and>
      (case (left (h ! a), right (h ! a)) of
         (None, None) \<Rightarrow> True
       | (Some l, Some r) \<Rightarrow>
           n0 \<le> l \<and> l < a \<and> n0 \<le> r \<and> r < a \<and>
           data (h ! a) = parent_data hash (data (h ! l)) (data (h ! r)) \<and>
           chunk_size (data (h ! l)) + chunk_size (data (h ! r)) < 2 ^ 64
       | _ \<Rightarrow> False))"

definition heap_ok :: "hash_algo \<Rightarrow> nat \<Rightarrow> nat \<Rightarrow> heap \<Rightarrow> bool" where
  "heap_ok hash L n0 h = list_all (node_ok hash L n0 h) [n0 ..< length h]"

declare hex.simps [simp del]
declare sha256_blocks.simps [simp del]
declare chunks.simps [simp del]
declare pair_loop.simps [simp del]
declare make_tree_loop.simps [simp del]

section \<open>Reading the leaves\<close>

lemma chunks_short: "0 < c \<Longrightarrow> length s \<le> c \<Longrightarrow> chunks c s = (if s = [] then [] else [s])"
  by (subst chunks.simps) (simp add: chunks.simps[of c "[]"])

lemma chunks_long: "0 < c \<Longrightarrow> c \<le> length s \<Longrightarrow> chunks c s = take c s # chunks c (drop c s)"
  by (subst chunks.simps) auto

lemma to_streamsize_id: "c \<le> max_size \<Longrightarrow> to_streamsize c = int c"
  by (simp add: to_streamsize_def max_size_def)

lemma to_size_t_id: "n < 2 ^ 64 \<Longrightarrow> to_size_t n = n"
  by (simp add: to_size_t_def)

lemma generate_leaves_while_good:
  assumes c: "0 < c" and cm: "c \<le> max_size"
  shows "good (stream st) \<Longrightarrow> read_offset st + length (unread (stream st)) < 2 ^ 64 \<Longrightarrow>
     \<exists>st'. generate_leaves_while hash c st = Some st'
        \<and> nodes st' = nodes st @ map leaf_node (leaf_data hash (read_offset st) (chunks c (unread (stream st))))
        \<and> result st' = result st @ [length (nodes st) ..< length (nodes st) + length (chunks c (unread (stream st)))]"
proof (induction "length (unread (stream st))" arbitrary: st rule: less_induct)
  case less
  let ?s = "unread (stream st)"
  let ?b = "generate_leaves_body hash c st"
  have notEof: "\<not> eof (stream st)" using less.prems by (simp add: good_def eof_def)
  have unfold: "generate_leaves_while hash c st = generate_leaves_while hash c ?b"
    using notEof by (subst generate_leaves_while.simps) simp
  show ?case
  proof (cases "length ?s < c")
    case True
    have e: "eof (stream ?b)"
      using True less.prems(1)
      by (simp add: generate_leaves_body_def read_def Let_def eof_def make_shared_def
            to_streamsize_id[OF cm] split: prod.splits)
    have w: "generate_leaves_while hash c ?b = Some ?b"
      using e by (subst generate_leaves_while.simps) simp
    have ch: "chunks c ?s = (if ?s = [] then [] else [?s])"
      using True c by (simp add: chunks_short)
    have "nodes ?b = nodes st @ map leaf_node (leaf_data hash (read_offset st) (chunks c ?s))
        \<and> result ?b = result st @ [length (nodes st) ..< length (nodes st) + length (chunks c ?s)]"
      using True less.prems(1) unfolding ch
      by (simp add: generate_leaves_body_def read_def Let_def make_shared_def leaf_node_def
            to_streamsize_id[OF cm])
    then show ?thesis using unfold w by simp
  next
    case False
    then have ge: "c \<le> length ?s" by simp
    have ch: "chunks c ?s = take c ?s # chunks c (drop c ?s)"
      using ge by (rule chunks_long[OF c])
    have g: "good (stream ?b)" and u: "unread (stream ?b) = drop c ?s"
      and n: "nodes ?b = nodes st @ [leaf_node \<lparr>checksum = hash (take c ?s), chunk_offset = read_offset st, chunk_size = c\<rparr>]"
      and r: "result ?b = result st @ [length (nodes st)]"
      and ro: "read_offset ?b = read_offset st + c"
      using ge c less.prems
      by (simp_all add: generate_leaves_body_def read_def Let_def make_shared_def leaf_node_def
            good_def min_def to_streamsize_id[OF cm] to_size_t_id)
    have lt: "length (unread (stream ?b)) < length ?s" using u ge c by simp
    have bd: "read_offset ?b + length (unread (stream ?b)) < 2 ^ 64"
      using less.prems(2) ge by (simp add: ro u)
    from less.hyps[OF lt g bd] obtain st' where
      st': "generate_leaves_while hash c ?b = Some st'"
       "nodes st' = nodes ?b @ map leaf_node (leaf_data hash (read_offset ?b) (chunks c (unread (stream ?b))))"
       "result st' = result ?b @ [length (nodes ?b) ..< length (nodes ?b) + length (chunks c (unread (stream ?b)))]"
      by blast
    have lc: "length (take c ?s) = c" using ge by simp
    have up: "[length (nodes st) ..< length (nodes st) + Suc k]
        = length (nodes st) # [Suc (length (nodes st)) ..< Suc (length (nodes st)) + k]" for k
      by (simp add: upt_conv_Cons)
    have "nodes st' = nodes st @ map leaf_node (leaf_data hash (read_offset st) (chunks c ?s))"
      unfolding st'(2) ch n ro u using lc by (simp add: leaf_node_def)
    moreover have "result st' = result st @ [length (nodes st) ..< length (nodes st) + length (chunks c ?s)]"
      unfolding st'(3) ch n r u by (simp add: upt_conv_Cons del: upt_Suc)
    ultimately show ?thesis
      unfolding unfold using st'(1) by blast
  qed
qed

section \<open>One pass of the reduction\<close>

lemma pairs_short: "length xs \<le> 1 \<Longrightarrow> pairs xs = []"
  by (cases xs rule: pairs.cases) simp_all

lemma length_pairs: "length (pairs xs) = length xs div 2"
  by (induction xs rule: pairs.induct) simp_all

lemma drop_two: "i + 1 < length xs \<Longrightarrow> drop i xs = xs ! i # xs ! (i + 1) # drop (i + 2) xs"
  by (simp add: Cons_nth_drop_Suc)

lemma pair_loop_closed:
  "prev \<noteq> [] \<Longrightarrow> i \<le> length prev \<Longrightarrow> \<forall>a\<in>set prev. a < length h0 \<Longrightarrow> h = h0 @ ns \<Longrightarrow>
   length prev \<le> INT_MAX \<Longrightarrow>
   pair_loop hash prev i (h, level) =
     Inr (h @ map (parent_node hash h0) (pairs (drop i prev)),
          level @ [length h ..< length h + length (pairs (drop i prev))])"
proof (induction "length prev - i" arbitrary: i h level ns rule: less_induct)
  case less
  note prems = less.prems
  have sz: "size_minus_1 (length prev) = length prev - 1"
    using prems(1) by (simp add: size_minus_1_def)
  show ?case
  proof (cases "i + 1 < length prev")
    case True
    let ?l = "prev ! i" and ?r = "prev ! Suc i"
    have lv: "?l < length h0" and rv: "?r < length h0"
      using True prems(3) by simp_all
    have hl: "h ! ?l = h0 ! ?l" and hr: "h ! ?r = h0 ! ?r"
      using lv rv prems(4) by (simp_all add: nth_append)
    let ?new = "parent_node hash h0 (?l, ?r)"
    have il: "i < length prev - Suc 0" using True by simp
    have ov: "\<not> INT_MAX < Suc (Suc i)" using True prems(5) by simp
    have step: "pair_loop hash prev i (h, level)
        = pair_loop hash prev (i + 2) (h @ [?new], level @ [length h])"
      using True sz il ov
      by (subst pair_loop.simps)
         (simp add: make_shared_def Let_def hl hr parent_node_def parent_data_def)
    have dr: "pairs (drop i prev) = (?l, ?r) # pairs (drop (i + 2) prev)"
      using drop_two[OF True] by simp
    have ih: "pair_loop hash prev (i + 2) (h @ [?new], level @ [length h]) =
        Inr ((h @ [?new]) @ map (parent_node hash h0) (pairs (drop (i + 2) prev)),
             (level @ [length h]) @ [length (h @ [?new]) ..<
                  length (h @ [?new]) + length (pairs (drop (i + 2) prev))])"
      using less.hyps[of "i + 2" "h @ [?new]" "ns @ [?new]" "level @ [length h]"] prems True
      by simp
    show ?thesis
      unfolding step ih dr by (simp add: upt_conv_Cons del: upt_Suc)
  next
    case False
    then have "length (drop i prev) \<le> 1" by simp
    then have e: "pairs (drop i prev) = []" by (rule pairs_short)
    have "\<not> i < size_minus_1 (length prev)" using False sz by simp
    then show ?thesis
      unfolding e by (subst pair_loop.simps) simp
  qed
qed

lemma valid_levelD: "valid_level h lvl \<Longrightarrow> a \<in> set lvl \<Longrightarrow> a < length h"
  by (simp add: valid_level_def list_all_iff)

lemma reduce_level_closed:
  assumes "valid_level h prev" and b: "length prev \<le> INT_MAX"
  shows "reduce_level hash h prev = Inr (heap_above hash h prev, level_above h prev)"
proof -
  have ne: "prev \<noteq> []" and v: "\<forall>a\<in>set prev. a < length h"
    using assms(1) by (simp_all add: valid_level_def list_all_iff)
  have "pair_loop hash prev 0 (h, []) =
     Inr (h @ map (parent_node hash h) (pairs (drop 0 prev)),
          [] @ [length h ..< length h + length (pairs (drop 0 prev))])"
    by (rule pair_loop_closed[OF ne _ v _ b, of 0 h "[]"]) simp_all
  then show ?thesis
    by (simp add: reduce_level_def heap_above_def level_above_def length_pairs)
qed

lemma pair_loop_overflow:
  "INT_MAX < length prev \<Longrightarrow> even i \<Longrightarrow> i < 2 ^ 31 \<Longrightarrow>
   pair_loop hash prev i (h, level) = Inl IntOverflow"
proof (induction "2 ^ 31 - i" arbitrary: i h level rule: less_induct)
  case less
  have "i < 2147483648" using less.prems(3) by simp
  then have "i + 2 \<le> 2147483648" using less.prems(2) by presburger
  then have i: "i + 2 \<le> 2 ^ 31" by simp
  have r1: "Suc i < length prev"
    using i less.prems(1) by (simp add: INT_MAX_def)
  then have "length prev \<noteq> 0" "i < length prev - 1" by linarith+
  then have r2: "i < size_minus_1 (length prev)" by (simp add: size_minus_1_def)
  note r = r1 r2
  show ?case
  proof (cases "INT_MAX < i + 2")
    case True
    then show ?thesis
      using r by (subst pair_loop.simps) (simp add: Let_def make_shared_def)
  next
    case False
    then have lt: "i + 2 < 2 ^ 31" by (simp add: INT_MAX_def)
    have "pair_loop hash prev (i + 2) (h2, level2) = Inl IntOverflow" for h2 level2
      using less.prems(1,2) lt by (intro less.hyps) simp_all
    then show ?thesis
      using r False by (subst pair_loop.simps) (simp add: Let_def make_shared_def)
  qed
qed

lemma reduce_level_overflow: "INT_MAX < length prev \<Longrightarrow> reduce_level hash h prev = Inl IntOverflow"
  by (simp add: reduce_level_def pair_loop_overflow)

lemma make_tree_overflow:
  assumes "INT_MAX < length leaves"
  shows "make_tree hash h leaves = Inl IntOverflow"
proof -
  have "below_tree_height 0 (length leaves)"
    using assms by (simp add: below_tree_height_def INT_MAX_def)
  then have "make_tree_loop hash (length leaves) 0 (h, [leaves]) = Inl IntOverflow"
    using assms by (subst make_tree_loop.simps) (simp add: reduce_level_overflow)
  then show ?thesis by (simp add: make_tree_def)
qed

lemma length_level_above: "length (level_above h prev) = (length prev + 1) div 2"
  by (simp add: level_above_def) presburger

lemma length_heap_above: "length (heap_above hash h prev) = length h + length prev div 2"
  by (simp add: heap_above_def length_pairs)

lemma heap_above_old: "a < length h \<Longrightarrow> heap_above hash h prev ! a = h ! a"
  by (simp add: heap_above_def nth_append)

lemma heap_above_new:
  "a < length prev div 2 \<Longrightarrow>
   heap_above hash h prev ! (length h + a) = parent_node hash h (pairs prev ! a)"
  by (simp add: heap_above_def nth_append length_pairs)

lemma valid_level_above:
  assumes "valid_level h prev"
  shows "valid_level (heap_above hash h prev) (level_above h prev)"
proof -
  have ne: "prev \<noteq> []" using assms by (simp add: valid_level_def)
  have "last prev < length h" using assms ne by (simp add: valid_levelD)
  moreover have "level_above h prev \<noteq> []"
    using ne length_level_above[of h prev] by (cases prev) auto
  ultimately show ?thesis
    by (auto simp: valid_level_def list_all_iff level_above_def length_heap_above)
qed

lemma map_nth_new: "map ((!) (h @ ns)) [length h ..< length h + length ns] = ns"
  by (rule nth_equalityI) (simp_all add: nth_append)

lemma reduce_data_map:
  "reduce_data hash (map f xs) =
     map (\<lambda>p. parent_data hash (f (fst p)) (f (snd p))) (pairs xs)
       @ (if length xs mod 2 \<noteq> 0 then [f (last xs)] else [])"
  by (induction xs rule: pairs.induct) simp_all

lemma level_data_above:
  assumes "valid_level h prev"
  shows "level_data (heap_above hash h prev) (level_above h prev)
       = reduce_data hash (level_data h prev)"
proof -
  let ?ns = "map (parent_node hash h) (pairs prev)"
  have ne: "prev \<noteq> []" using assms by (simp add: valid_level_def)
  have l: "last prev < length h" using assms ne by (simp add: valid_levelD)
  have "map (\<lambda>a. data ((h @ ?ns) ! a)) [length h ..< length h + length ?ns] = map data ?ns"
    using map_nth_new[of h ?ns, THEN arg_cong, of "map data"] by (simp add: comp_def)
  then show ?thesis
    using l
    by (simp add: level_data_def heap_above_def level_above_def reduce_data_map
          length_pairs nth_append parent_node_def comp_def)
qed

section \<open>The reduction loop\<close>

lemma length_level_above_le: "length (level_above h prev) \<le> length prev"
  by (simp add: level_above_def) presburger

lemma make_tree_loop_rule:
  assumes step: "\<And>i h tree. valid_level h (last tree) \<Longrightarrow> length (last tree) \<le> INT_MAX \<Longrightarrow>
            I i h tree \<Longrightarrow> below_tree_height i n \<Longrightarrow>
            I (i + 1) (heap_above hash h (last tree)) (tree @ [level_above h (last tree)])"
  shows "valid_level h (last tree) \<Longrightarrow> length (last tree) \<le> INT_MAX \<Longrightarrow> I i h tree \<Longrightarrow>
     \<exists>h' tree' k. make_tree_loop hash n i (h, tree) = Inr (h', tree')
        \<and> valid_level h' (last tree') \<and> I (i + k) h' tree' \<and> \<not> below_tree_height (i + k) n"
proof (induction "n - 2 ^ i" arbitrary: i h tree rule: less_induct)
  case less
  show ?case
  proof (cases "below_tree_height i n")
    case False
    then have "make_tree_loop hash n i (h, tree) = Inr (h, tree)"
      by (subst make_tree_loop.simps) simp
    then show ?thesis using less.prems False by (intro exI[of _ h] exI[of _ tree] exI[of _ 0]) simp
  next
    case True
    let ?h = "heap_above hash h (last tree)" and ?t = "tree @ [level_above h (last tree)]"
    have unf: "make_tree_loop hash n i (h, tree) = make_tree_loop hash n (i + 1) (?h, ?t)"
      using True by (subst make_tree_loop.simps) (simp add: reduce_level_closed[OF less.prems(1,2)])
    have m: "n - 2 ^ (i + 1) < n - 2 ^ i"
      using True by (auto simp: below_tree_height_def intro!: diff_less_mono2)
    have v: "valid_level ?h (last ?t)"
      using valid_level_above[OF less.prems(1)] by simp
    have b: "length (last ?t) \<le> INT_MAX"
      using length_level_above_le[of h "last tree"] less.prems(2) by simp
    have i: "I (i + 1) ?h ?t" by (rule step[OF less.prems True])
    from less.hyps[OF m v b i] obtain h' tree' k where
      "make_tree_loop hash n (i + 1) (?h, ?t) = Inr (h', tree')" "valid_level h' (last tree')"
      "I (i + 1 + k) h' tree'" "\<not> below_tree_height (i + 1 + k) n"
      by blast
    then show ?thesis unfolding unf
      by (intro exI[of _ h'] exI[of _ tree'] exI[of _ "Suc k"]) simp
  qed
qed

section \<open>The leaves and the root\<close>

lemma generate_leaves_closed:
  assumes "0 < c" and "c \<le> max_size" and "length s < 2 ^ 64"
  shows "generate_leaves hash c h (istringstream_ctor s) =
     Some (Inr (h @ map leaf_node (leaf_data hash 0 (chunks c s)),
                [length h ..< length h + length (chunks c s)]))"
proof -
  let ?st = "\<lparr>stream = istringstream_ctor s, nodes = h, result = [], read_offset = 0\<rparr>"
  have g: "good (stream ?st)" by (simp add: good_def istringstream_ctor_def)
  have b: "read_offset ?st + length (unread (stream ?st)) < 2 ^ 64"
    using assms(3) by (simp add: istringstream_ctor_def)
  from generate_leaves_while_good[OF assms(1,2) g b, of hash]
  show ?thesis using assms(2) by (auto simp: generate_leaves_def istringstream_ctor_def)
qed

lemma ceil_div_Suc: "0 < n \<Longrightarrow> 0 < c \<Longrightarrow> (n + c - 1) div c = Suc ((n - 1) div c)"
proof -
  assume a: "0 < n" "0 < (c::nat)"
  then have "n + c - 1 = (n - 1) + c" by simp
  then have "(n + c - 1) div c = ((n - 1) + c) div c" by (simp only:)
  also have "\<dots> = Suc ((n - 1) div c)" using a(2) div_add_self2[of c "n - 1"] by simp
  finally show ?thesis .
qed

lemma ceil_div_drop: "0 < (c::nat) \<Longrightarrow> 0 < n \<Longrightarrow> (n - c + c - 1) div c = (n - 1) div c"
  by (cases "c \<le> n") simp_all

lemma length_chunks: "0 < c \<Longrightarrow> length (chunks c s) = (length s + c - 1) div c"
proof (induction c s rule: chunks.induct)
  case (1 c s)
  show ?case
  proof (cases "s = []")
    case True
    then show ?thesis using "1.prems" by (subst chunks.simps) simp
  next
    case False
    have "length (chunks c (drop c s)) = (length (drop c s) + c - 1) div c"
      using "1.IH" "1.prems" False by simp
    then have ih: "length (chunks c (drop c s)) = (length s - 1) div c"
      using ceil_div_drop[OF "1.prems", of "length s"] False by simp
    have "length (chunks c s) = Suc (length (chunks c (drop c s)))"
      using False "1.prems" by (subst chunks.simps) simp
    then show ?thesis
      using ih ceil_div_Suc[of "length s" c] False "1.prems" by simp
  qed
qed

lemma chunks_nonempty: "0 < c \<Longrightarrow> s \<noteq> [] \<Longrightarrow> chunks c s \<noteq> []"
  by (subst chunks.simps) simp

lemma length_leaf_data: "length (leaf_data hash off cs) = length cs"
  by (induction cs arbitrary: off) simp_all

lemma tiles_leaf_data: "tiles off (leaf_data hash off cs) (off + length (concat cs))"
  by (induction cs arbitrary: off) (simp_all flip: add.assoc)

lemma concat_chunks: "0 < c \<Longrightarrow> concat (chunks c s) = s"
proof (induction c s rule: chunks.induct)
  case (1 c s)
  then show ?case by (subst chunks.simps) auto
qed

lemma tiles_le: "tiles off ds e \<Longrightarrow> off \<le> e"
proof (induction ds arbitrary: off)
  case (Cons d ds)
  then have "off + chunk_size d \<le> e" by simp
  then show ?case by simp
qed simp

lemma tiles_pairs_bound:
  "tiles off ds e \<Longrightarrow> (x, y) \<in> set (pairs ds) \<Longrightarrow> chunk_size x + chunk_size y \<le> e"
proof (induction ds arbitrary: off rule: pairs.induct)
  case (1 a b ds)
  from "1.prems"(1) have t: "tiles (off + chunk_size a + chunk_size b) ds e" by simp
  show ?case
  proof (cases "(x, y) = (a, b)")
    case True
    then show ?thesis using tiles_le[OF t] by simp
  next
    case False
    then have "(x, y) \<in> set (pairs ds)" using "1.prems"(2) by auto
    then show ?thesis by (rule "1.IH"[OF t])
  qed
qed simp_all

lemma tiles_reduce_data:
  "tiles off ds e \<Longrightarrow> e < 2 ^ 64 \<Longrightarrow> tiles off (reduce_data hash ds) e"
proof (induction hash ds arbitrary: off rule: reduce_data.induct)
  case (1 hash x y xs)
  from "1.prems"(1) have t: "tiles (off + chunk_size x + chunk_size y) xs e"
    and o: "chunk_offset x = off" by simp_all
  have "chunk_size x + chunk_size y \<le> e" using tiles_le[OF t] by simp
  then have "to_size_t (chunk_size x + chunk_size y) = chunk_size x + chunk_size y"
    using "1.prems"(2) by (simp add: to_size_t_id)
  then show ?case
    using "1.IH"[OF t "1.prems"(2)] o by (simp add: parent_data_def add.assoc)
qed simp_all

lemma leaves_level:
  "level_data (h @ map leaf_node ds) [length h ..< length h + length ds] = ds"
proof -
  have "map (\<lambda>a. data ((h @ map leaf_node ds) ! a))
          [length h ..< length h + length (map leaf_node ds)] = map data (map leaf_node ds)"
    using map_nth_new[of h "map leaf_node ds", THEN arg_cong, of "map data"]
    by (simp add: comp_def)
  then show ?thesis by (simp add: level_data_def comp_def leaf_node_def)
qed

lemma leaves_valid:
  "ds \<noteq> [] \<Longrightarrow> valid_level (h @ map leaf_node ds) [length h ..< length h + length ds]"
  by (simp add: valid_level_def list_all_iff)

text \<open>The size of the last level: after \<open>i\<close> passes it is at most \<open>n / 2^i\<close>, rounded up.\<close>

lemma halve_bound:
  assumes "(len - 1) * 2 ^ i < (n::nat)"
  shows "((len + 1) div 2 - 1) * 2 ^ (i + 1) < n"
proof -
  have "((len + 1) div 2 - 1) * 2 \<le> len - 1" by presburger
  then have "((len + 1) div 2 - 1) * 2 * 2 ^ i \<le> (len - 1) * 2 ^ i"
    by (rule mult_le_mono1)
  then have "((len + 1) div 2 - 1) * 2 * 2 ^ i < n"
    using assms by (rule le_less_trans)
  moreover have "((len + 1) div 2 - 1) * 2 ^ (i + 1) = ((len + 1) div 2 - 1) * 2 * 2 ^ i"
    by simp
  ultimately show ?thesis by (simp only:)
qed

lemma last_level_single:
  assumes "(len - 1) * 2 ^ k < (n::nat)" and "\<not> 2 ^ k < n" and "0 < len"
  shows "len = 1"
proof (rule ccontr)
  assume "len \<noteq> 1"
  then have "1 \<le> len - 1" using assms(3) by simp
  then have "1 * 2 ^ k \<le> (len - 1) * 2 ^ k" by (rule mult_le_mono1)
  then have "1 * 2 ^ k < n" using assms(1) by (rule le_less_trans)
  then show False using assms(2) by simp
qed

lemma make_tree_root:
  assumes v: "valid_level h leaves" and b: "length leaves \<le> INT_MAX"
    and t: "tiles 0 (level_data h leaves) N" and N: "N < 2 ^ 64"
  shows "\<exists>h' r. make_tree hash h leaves = Inr (h', r) \<and> r < length h'
           \<and> chunk_offset (data (h' ! r)) = 0 \<and> chunk_size (data (h' ! r)) = N"
proof -
  let ?n = "length leaves"
  let ?I = "\<lambda>i h tree. tiles 0 (level_data h (last tree)) N \<and> (length (last tree) - 1) * 2 ^ i < ?n"
  have ne: "leaves \<noteq> []" using v by (simp add: valid_level_def)
  have "\<exists>h' tree' k. make_tree_loop hash ?n 0 (h, [leaves]) = Inr (h', tree')
        \<and> valid_level h' (last tree') \<and> ?I (0 + k) h' tree' \<and> \<not> below_tree_height (0 + k) ?n"
  proof (rule make_tree_loop_rule[where I = ?I])
    show "valid_level h (last [leaves])" using v by simp
    show "length (last [leaves]) \<le> INT_MAX" using b by simp
    show "?I 0 h [leaves]" using t ne by simp
  next
    fix i h tree
    assume a: "valid_level h (last tree)" "?I i h tree"
    show "?I (i + 1) (heap_above hash h (last tree)) (tree @ [level_above h (last tree)])"
      using a N halve_bound[of "length (last tree)" i ?n]
      by (simp add: level_data_above tiles_reduce_data length_level_above)
  qed
  then obtain h' tree' k where r: "make_tree_loop hash ?n 0 (h, [leaves]) = Inr (h', tree')"
    "valid_level h' (last tree')" "tiles 0 (level_data h' (last tree')) N"
    "(length (last tree') - 1) * 2 ^ k < ?n" "\<not> 2 ^ k < ?n"
    by (auto simp: below_tree_height_def)
  have "0 < length (last tree')" using r(2) by (simp add: valid_level_def)
  from last_level_single[OF r(4,5) this] obtain a where a: "last tree' = [a]"
    by (cases "last tree'") auto
  have "a < length h'" using r(2) a by (simp add: valid_level_def)
  then show ?thesis using r(1,3) a
    by (simp add: make_tree_def level_data_def)
qed

section \<open>A chunk size of zero\<close>

lemma zero_chunk_body:
  "good strm \<Longrightarrow> gcount strm = 0 \<Longrightarrow>
   generate_leaves_body hash 0 \<lparr>stream = strm, nodes = h, result = r, read_offset = off\<rparr>
     = \<lparr>stream = strm, nodes = h, result = r, read_offset = off\<rparr>"
  by (simp add: generate_leaves_body_def read_def Let_def good_def to_streamsize_def)

lemma zero_chunk_not_eof:
  "\<not> eof (stream st) \<Longrightarrow> \<not> eof (stream (generate_leaves_body hash 0 st))"
  by (simp add: generate_leaves_body_def read_def Let_def good_def eof_def to_streamsize_def)

lemma zero_chunk_returns_at_eof:
  assumes "generate_leaves_while hash c st = Some st'"
  shows "c = 0 \<longrightarrow> eof (stream st)"
proof (rule generate_leaves_while.raw_induct
         [where P = "\<lambda>hash c st y. c = 0 \<longrightarrow> eof (stream st)"])
  fix f :: "hash_algo \<Rightarrow> nat \<Rightarrow> leaves_state \<Rightarrow> leaves_state option"
  fix hash c st y
  assume IH: "\<And>hash c st y. f hash c st = Some y \<Longrightarrow> c = 0 \<longrightarrow> eof (stream st)"
    and eq: "(if eof (stream st) then Some st
              else f hash c (generate_leaves_body hash c st)) = Some y"
  show "c = 0 \<longrightarrow> eof (stream st)"
  proof (intro impI, rule ccontr)
    assume c: "c = 0" and ne: "\<not> eof (stream st)"
    from eq ne have "f hash c (generate_leaves_body hash c st) = Some y" by simp
    from IH[OF this] c have "eof (stream (generate_leaves_body hash 0 st))" by simp
    then show False using zero_chunk_not_eof[OF ne] by simp
  qed
next
  show "generate_leaves_while hash c st = Some st'" by fact
qed

lemma generate_leaves_zero_chunk:
  "generate_leaves hash 0 h (istringstream_ctor s) = None"
proof -
  let ?st = "\<lparr>stream = istringstream_ctor s, nodes = h, result = [], read_offset = 0\<rparr>"
  have "\<not> eof (stream ?st)" by (simp add: eof_def istringstream_ctor_def)
  then have "generate_leaves_while hash 0 ?st = None"
    using zero_chunk_returns_at_eof[of hash 0 ?st] by (cases "generate_leaves_while hash 0 ?st") auto
  then show ?thesis by (simp add: generate_leaves_def max_size_def)
qed

section \<open>The nodes of a construction\<close>

lemma pairs_set: "(l, r) \<in> set (pairs xs) \<Longrightarrow> l \<in> set xs \<and> r \<in> set xs"
  by (induction xs rule: pairs.induct) auto

lemma node_ok_append:
  "a < length h \<Longrightarrow> node_ok hash L n0 (h @ ns) a = node_ok hash L n0 h a"
  by (auto simp: node_ok_def nth_append split: option.splits)

lemma heap_okI:
  "(\<And>a. n0 \<le> a \<Longrightarrow> a < length h \<Longrightarrow> node_ok hash L n0 h a) \<Longrightarrow> heap_ok hash L n0 h"
  by (simp add: heap_ok_def list_all_iff)

lemma heap_okD:
  "heap_ok hash L n0 h \<Longrightarrow> n0 \<le> a \<Longrightarrow> a < length h \<Longrightarrow> node_ok hash L n0 h a"
  by (simp add: heap_ok_def list_all_iff)

lemma heap_ok_leaves:
  assumes "\<And>x. length (hash x) = L"
  shows "heap_ok hash L (length h) (h @ map leaf_node (leaf_data hash off cs))"
proof (rule heap_okI)
  fix a assume a: "length h \<le> a" "a < length (h @ map leaf_node (leaf_data hash off cs))"
  let ?ds = "leaf_data hash off cs"
  have "\<exists>x. checksum d = hash x" if "d \<in> set (leaf_data hash off cs)" for d off
    using that by (induction cs arbitrary: off) auto
  then have len: "length (checksum d) = L" if "d \<in> set ?ds" for d
    using that assms by metis
  have i: "a - length h < length ?ds" using a by simp
  have "(h @ map leaf_node ?ds) ! a = leaf_node (?ds ! (a - length h))"
    using a by (simp add: nth_append)
  then show "node_ok hash L (length h) (h @ map leaf_node ?ds) a"
    using len[OF nth_mem[OF i]] by (simp add: node_ok_def leaf_node_def)
qed

lemma pairs_map: "pairs (map f xs) = map (\<lambda>p. (f (fst p), f (snd p))) (pairs xs)"
  by (induction xs rule: pairs.induct) simp_all

lemma heap_ok_above:
  assumes len: "\<And>x. length (hash x) = L"
    and ok: "heap_ok hash L n0 h" and v: "valid_level h prev"
    and lo: "list_all (\<lambda>a. n0 \<le> a) prev"
    and t: "tiles off (level_data h prev) e" and e: "e < 2 ^ 64"
  shows "heap_ok hash L n0 (heap_above hash h prev)"
proof (rule heap_okI)
  fix a assume a: "n0 \<le> a" "a < length (heap_above hash h prev)"
  let ?ns = "map (parent_node hash h) (pairs prev)"
  show "node_ok hash L n0 (heap_above hash h prev) a"
  proof (cases "a < length h")
    case True
    then show ?thesis
      using heap_okD[OF ok a(1) True] by (simp add: heap_above_def node_ok_append)
  next
    case False
    let ?j = "a - length h"
    have j: "?j < length (pairs prev)" using a False by (simp add: heap_above_def)
    obtain l r where p: "pairs prev ! ?j = (l, r)" by (cases "pairs prev ! ?j")
    have "(l, r) \<in> set (pairs prev)" using nth_mem[OF j] p by simp
    then have mem: "l \<in> set prev" "r \<in> set prev" using pairs_set by fastforce+
    have lr: "l < length h" "r < length h" "n0 \<le> l" "n0 \<le> r"
      using mem v lo by (auto simp: valid_level_def list_all_iff)
    have "(data (h ! l), data (h ! r)) \<in> set (pairs (level_data h prev))"
      using \<open>(l, r) \<in> set (pairs prev)\<close> by (force simp: level_data_def pairs_map)
    from tiles_pairs_bound[OF t this] e
    have sum: "chunk_size (data (h ! l)) + chunk_size (data (h ! r)) < 2 ^ 64" by simp
    have "heap_above hash h prev ! a = parent_node hash h (l, r)"
      using j False p by (simp add: heap_above_def nth_append)
    then show ?thesis
      using lr False len sum
      by (simp add: node_ok_def parent_node_def parent_data_def heap_above_def nth_append)
  qed
qed

lemma level_above_lower:
  "n0 \<le> length h \<Longrightarrow> prev \<noteq> [] \<Longrightarrow> list_all (\<lambda>a. n0 \<le> a) prev \<Longrightarrow>
   list_all (\<lambda>a. n0 \<le> a) (level_above h prev)"
  by (auto simp: level_above_def list_all_iff)

lemma ceiling_half: "\<lceil>real k / 2\<rceil> = int ((k + 1) div 2)"
proof (cases "even k")
  case True
  then obtain m where "k = 2 * m" by (auto elim: evenE)
  then show ?thesis by simp
next
  case False
  then obtain m where m: "k = 2 * m + 1" by (auto elim: oddE)
  have "\<lceil>real k / 2\<rceil> = int m + 1"
    by (rule ceiling_eq) (simp_all add: m field_simps)
  then show ?thesis by (simp add: m)
qed

lemma ceiling_log2:
  assumes "n \<le> 2 ^ k" and "k = 0 \<or> 2 ^ (k - 1) < n" and "0 < (n::nat)"
  shows "nat \<lceil>log 2 (real n)\<rceil> = k"
proof (cases "k = 0")
  case True
  then have "n = 1" using assms by simp
  then show ?thesis using True by simp
next
  case False
  then have lo: "2 ^ (k - 1) < n" using assms(2) by simp
  have "real (k - 1) < log 2 (real n)"
    by (rule less_log_of_power) (use lo in simp_all)
  moreover have "log 2 (real n) \<le> real k"
    by (rule log_of_power_le) (use assms in simp_all)
  ultimately have "\<lceil>log 2 (real n)\<rceil> = int (k - 1) + 1"
    by (intro ceiling_eq) (simp_all add: False of_nat_diff)
  then show ?thesis using False by simp
qed

lemma make_tree_loop_heap_ok:
  assumes len: "\<And>x. length (hash x) = L"
    and ok: "heap_ok hash L n0 h" and v: "valid_level h leaves"
    and lo: "list_all (\<lambda>a. n0 \<le> a) leaves" and n0: "n0 \<le> length h"
    and b: "length leaves \<le> INT_MAX"
    and t: "tiles 0 (level_data h leaves) N" and N: "N < 2 ^ 64"
  shows "\<exists>h' tree. make_tree_loop hash n 0 (h, [leaves]) = Inr (h', tree)
           \<and> heap_ok hash L n0 h' \<and> length h \<le> length h'"
proof -
  let ?I = "\<lambda>(i::nat) h' (tree::addr list list). heap_ok hash L n0 h' \<and> length h \<le> length h'
              \<and> list_all (\<lambda>a. n0 \<le> a) (last tree)
              \<and> tiles 0 (level_data h' (last tree)) N"
  have "\<exists>h' tree' k. make_tree_loop hash n 0 (h, [leaves]) = Inr (h', tree')
        \<and> valid_level h' (last tree') \<and> ?I (0 + k) h' tree' \<and> \<not> below_tree_height (0 + k) n"
  proof (rule make_tree_loop_rule[where I = ?I])
    show "valid_level h (last [leaves])" using v by simp
    show "length (last [leaves]) \<le> INT_MAX" using b by simp
    show "?I 0 h [leaves]" using ok lo t by simp
  next
    fix i g tree
    assume a: "valid_level g (last tree)" "?I i g tree"
    then have "last tree \<noteq> []" "n0 \<le> length g" using n0 by (auto simp: valid_level_def)
    moreover have "heap_ok hash L n0 (heap_above hash g (last tree))"
      using a N by (intro heap_ok_above[OF len, where e = N and off = 0]) simp_all
    ultimately show "?I (i + 1) (heap_above hash g (last tree)) (tree @ [level_above g (last tree)])"
      using a N
      by (simp add: level_above_lower length_heap_above level_data_above tiles_reduce_data)
  qed
  then show ?thesis by auto
qed

lemma ctor_empty_input:
  assumes "Suc c \<le> max_size"
  shows "MerkleTree_ctor hash h [] (Suc c) = Some (Inl AssertionFailure)"
proof -
  have ch: "chunks (Suc c) [] = []" by (subst chunks.simps) simp
  have lp: "make_tree_loop hash 0 0 (h, [[]]) = Inr (h, [[]])"
    by (subst make_tree_loop.simps) (simp add: below_tree_height_def)
  show ?thesis
    using assms
    by (simp add: MerkleTree_ctor_def generate_leaves_closed ch make_tree_def lp)
qed

text \<open>What a construction that returns a tree says of its input.\<close>

lemma ctor_Inr_bounds:
  assumes ctor: "MerkleTree_ctor hash h s c = Some (Inr (h', t))" and ls: "length s < 2 ^ 64"
  shows "0 < c \<and> c \<le> max_size \<and> s \<noteq> [] \<and> length (chunks c s) \<le> INT_MAX"
proof -
  have c: "0 < c"
    using ctor by (cases c) (simp_all add: MerkleTree_ctor_def generate_leaves_zero_chunk)
  have cm: "c \<le> max_size"
    using ctor by (cases "max_size < c") (simp_all add: MerkleTree_ctor_def generate_leaves_def)
  have s: "s \<noteq> []"
    using ctor ctor_empty_input[of "c - 1" hash h] c cm by auto
  have "length (chunks c s) \<le> INT_MAX"
  proof (rule ccontr)
    assume "\<not> length (chunks c s) \<le> INT_MAX"
    then have "INT_MAX < length [length h ..< length h + length (chunks c s)]" by simp
    from make_tree_overflow[OF this] show False
      using ctor by (simp add: MerkleTree_ctor_def generate_leaves_closed[OF c cm ls])
  qed
  with c cm s show ?thesis by simp
qed

lemma ctor_heap_ok:
  assumes len: "\<And>x. length (hash x) = L"
    and ctor: "MerkleTree_ctor hash h s c = Some (Inr (h', t))" and ls: "length s < 2 ^ 64"
  shows "heap_ok hash L (length h) h' \<and> length h \<le> length h'"
proof -
  have c: "0 < c" and cm: "c \<le> max_size" and s: "s \<noteq> []"
    and b: "length (chunks c s) \<le> INT_MAX"
    using ctor_Inr_bounds[OF ctor ls] by simp_all
  let ?ds = "leaf_data hash 0 (chunks c s)"
  let ?h = "h @ map leaf_node ?ds" and ?lv = "[length h ..< length h + length (chunks c s)]"
  have ne: "?ds \<noteq> []"
    using chunks_nonempty[OF c s] length_leaf_data[of hash 0 "chunks c s"] by auto
  have v: "valid_level ?h ?lv"
    using leaves_valid[OF ne, of h] by (simp add: length_leaf_data)
  have lo: "list_all (\<lambda>a. length h \<le> a) ?lv" by (simp add: list_all_iff)
  have bl: "length ?lv \<le> INT_MAX" using b by simp
  have tl: "tiles 0 (level_data ?h ?lv) (length s)"
    using tiles_leaf_data[of 0 hash "chunks c s"] leaves_level[of h ?ds]
    by (simp add: length_leaf_data concat_chunks[OF c])
  from make_tree_loop_heap_ok[OF len heap_ok_leaves[OF len] v lo _ bl tl ls, of "length ?lv"]
  obtain h2 tree where r: "make_tree_loop hash (length ?lv) 0 (?h, [?lv]) = Inr (h2, tree)"
    "heap_ok hash L (length h) h2" "length ?h \<le> length h2"
    by auto
  have "h' = h2"
    using ctor r(1)
    by (simp add: MerkleTree_ctor_def generate_leaves_closed[OF c cm ls] make_tree_def
          split: if_splits)
  then show ?thesis using r(2,3) by simp
qed

section \<open>Evaluating the construction\<close>

lemma length_sha256_round: "length (sha256_round kw s) = length s"
  by (cases "(kw, s)" rule: sha256_round.cases) (simp_all add: Let_def)

lemma length_fold_round: "length (fold sha256_round kws s) = length s"
  by (induction kws arbitrary: s) (simp_all add: length_sha256_round)

lemma length_compress: "length (compress hs block) = length hs"
  by (simp add: compress_def length_fold_round)

lemma length_sha256_blocks: "length (fst (sha256_blocks hs bs)) = length hs"
proof (induction hs bs rule: sha256_blocks.induct)
  case (1 hs bs)
  then show ?case by (subst sha256_blocks.simps) (simp add: length_compress)
qed

lemma length_concat_be_bytes: "length (concat (map be_bytes ws)) = 4 * length ws"
  by (induction ws) (simp_all add: be_bytes_def)

lemma length_Sha256_hash: "length (Sha256_hash x) = 32"
  by (simp add: Sha256_hash_def SHA256_Final_def SHA256_Update_def SHA256_Init_def
        length_concat_be_bytes length_sha256_blocks H256_def case_prod_beta)

lemma chunks_one: "chunks (Suc 0) (x # xs) = [x] # chunks (Suc 0) xs"
  by (subst chunks.simps) simp

lemma chunks_Nil: "chunks c [] = []"
  by (subst chunks.simps) simp

lemma make_tree_loop_stop: "\<not> below_tree_height i n \<Longrightarrow> make_tree_loop hash n i s = Inr s"
  by (cases s) (simp add: make_tree_loop.simps)

lemma make_tree_loop_step:
  "below_tree_height i n \<Longrightarrow> valid_level h (last tree) \<Longrightarrow> length (last tree) \<le> INT_MAX \<Longrightarrow>
   make_tree_loop hash n i (h, tree) =
     make_tree_loop hash n (Suc i) (heap_above hash h (last tree), tree @ [level_above h (last tree)])"
  by (subst make_tree_loop.simps) (simp add: reduce_level_closed)

lemma ctor_two_chunks:
  "MerkleTree_ctor hash [] [x, y] 1 =
     Some (Inr ([\<lparr>data = \<lparr>checksum = hash [x], chunk_offset = 0, chunk_size = 1\<rparr>,
                  parent = None, left = None, right = None\<rparr>,
                 \<lparr>data = \<lparr>checksum = hash [y], chunk_offset = 1, chunk_size = 1\<rparr>,
                  parent = None, left = None, right = None\<rparr>,
                 \<lparr>data = \<lparr>checksum = hash (string_of_bytes (hash [x] @ hash [y])),
                           chunk_offset = 0, chunk_size = 2\<rparr>,
                  parent = None, left = Some 0, right = Some 1\<rparr>],
                \<lparr>m_ChunkSize = 1, root = Some 2\<rparr>))"
  by (simp add: MerkleTree_ctor_def generate_leaves_closed chunks_one chunks_Nil leaf_node_def
        make_tree_def make_tree_loop_step make_tree_loop_stop below_tree_height_def
        valid_level_def heap_above_def level_above_def parent_node_def parent_data_def
        max_size_def INT_MAX_def to_size_t_def)

lemma make_tree_loop_levels:
  assumes v: "valid_level h leaves" and b: "length leaves \<le> INT_MAX"
  shows "\<exists>h' tree k. make_tree_loop hash (length leaves) 0 (h, [leaves]) = Inr (h', tree)
     \<and> valid_level h' (last tree)
     \<and> length tree = k + 1 \<and> hd tree = leaves
     \<and> list_all (\<lambda>j. length (tree ! Suc j) = (length (tree ! j) + 1) div 2) [0 ..< k]
     \<and> length (last tree) = 1
     \<and> length leaves \<le> 2 ^ k \<and> (k = 0 \<or> 2 ^ (k - 1) < length leaves)"
proof -
  let ?n = "length leaves"
  let ?I = "\<lambda>i (h::heap) tree. length tree = i + 1 \<and> hd tree = leaves
     \<and> list_all (\<lambda>j. length (tree ! Suc j) = (length (tree ! j) + 1) div 2) [0 ..< i]
     \<and> (length (last tree) - 1) * 2 ^ i < ?n \<and> (i = 0 \<or> 2 ^ (i - 1) < ?n)"
  have ne: "leaves \<noteq> []" using v by (simp add: valid_level_def)
  have "\<exists>h' tree' k. make_tree_loop hash ?n 0 (h, [leaves]) = Inr (h', tree')
        \<and> valid_level h' (last tree') \<and> ?I (0 + k) h' tree' \<and> \<not> below_tree_height (0 + k) ?n"
  proof (rule make_tree_loop_rule[where I = ?I])
    show "valid_level h (last [leaves])" using v by simp
    show "length (last [leaves]) \<le> INT_MAX" using b by simp
    show "?I 0 h [leaves]" using ne by simp
  next
    fix i h tree
    assume a: "valid_level h (last tree)" "?I i h tree" "below_tree_height i ?n"
    then have lt: "length tree = Suc i" and tne: "tree \<noteq> []" by auto
    have old: "list_all (\<lambda>j. length ((tree @ [level_above h (last tree)]) ! Suc j)
                 = (length ((tree @ [level_above h (last tree)]) ! j) + 1) div 2) [0 ..< i]"
      using a(2) lt by (simp add: list_all_iff nth_append)
    have new: "length ((tree @ [level_above h (last tree)]) ! Suc i)
                 = (length ((tree @ [level_above h (last tree)]) ! i) + 1) div 2"
      using lt tne by (simp add: nth_append length_level_above last_conv_nth)
    show "?I (i + 1) (heap_above hash h (last tree)) (tree @ [level_above h (last tree)])"
      using a old new halve_bound[of "length (last tree)" i ?n] tne
      by (simp add: length_level_above below_tree_height_def)
  qed
  then obtain h' tree' k where r: "make_tree_loop hash ?n 0 (h, [leaves]) = Inr (h', tree')"
    "valid_level h' (last tree')" "?I k h' tree'" "\<not> 2 ^ k < ?n"
    by (auto simp: below_tree_height_def)
  have "0 < length (last tree')" using r(2) by (simp add: valid_level_def)
  with r(3,4) have "length (last tree') = 1" using last_level_single by blast
  then show ?thesis using r by (intro exI[of _ h'] exI[of _ tree'] exI[of _ k]) simp
qed

lemma pairs_nth:
  "j < length xs div 2 \<Longrightarrow> pairs xs ! j = (xs ! (2 * j), xs ! (2 * j + 1))"
proof (induction xs arbitrary: j rule: pairs.induct)
  case (1 x y xs)
  then show ?case by (cases j) simp_all
qed simp_all

section \<open>Tree comparison and hex rendering\<close>

lemma length_string_of_bytes: "length (string_of_bytes bs) = length bs"
  by (simp add: string_of_bytes_def)

lemma of_char_char_of_byte: "(of_char (char_of (unat b)) :: uint8) = b"
proof -
  have "(of_char (char_of (unat b)) :: nat) = unat b mod 256" by simp
  moreover have "unat b < 256" using unsigned_less[of b, where ?'a = nat] by simp
  ultimately have "(of_char (char_of (unat b)) :: nat) = unat b" by simp
  then have "(of_nat (of_char (char_of (unat b))) :: uint8) = of_nat (unat b)" by simp
  then show ?thesis by (simp only: of_nat_of_char of_nat_unat ucast_id)
qed

lemma bytes_of_string_of_bytes: "map of_char (string_of_bytes bs) = bs"
  by (induction bs) (simp_all add: string_of_bytes_def of_char_char_of_byte)

lemma foldl_append_concat: "foldl (\<lambda>ss d. ss @ f d) acc xs = acc @ concat (map f xs)"
  by (induction xs arbitrary: acc) simp_all

lemma hex_byte:
  assumes "n < 256"
  shows "setw_setfill 2 (CHR ''0'') (hex n) = [hex_digit (n div 16), hex_digit (n mod 16)]"
proof (cases "n < 16")
  case True
  then show ?thesis by (subst hex.simps) (simp add: setw_setfill_def hex_digit_def)
next
  case False
  then have "n div 16 < 16" using assms by simp
  then have "hex (n div 16) = [hex_digit (n div 16)]" by (subst hex.simps) simp
  then show ?thesis using False by (subst hex.simps) (simp add: setw_setfill_def)
qed

lemma unat_byte: "unat (b :: uint8) < 256"
  using unsigned_less[of b, where ?'a = nat] by simp

lemma hexDigest_concat:
  "hexDigest d = concat (map (\<lambda>b. [hex_digit (unat b div 16), hex_digit (unat b mod 16)]) d)"
  by (simp add: hexDigest_def foldl_append_concat hex_byte unat_byte)

lemma hex_digit_lower: "n < 16 \<Longrightarrow> hex_digit n \<in> set ''0123456789abcdef''"
  unfolding hex_digit_def by (rule nth_mem) simp

lemma hexDigest_chars: "list_all (\<lambda>c. c \<in> set ''0123456789abcdef'') (hexDigest d)"
proof -
  have "hex_digit (unat b div 16) \<in> set ''0123456789abcdef''
      \<and> hex_digit (unat b mod 16) \<in> set ''0123456789abcdef''" for b :: uint8
    using unat_byte[of b] by (intro conjI hex_digit_lower) simp_all
  then have "list_all (\<lambda>c. c \<in> set ''0123456789abcdef'')
       [hex_digit (unat b div 16), hex_digit (unat b mod 16)]" for b :: uint8
    by (simp del: set_simps list.set)
  then show ?thesis
    unfolding hexDigest_concat by (induction d) (simp_all del: set_simps list.set)
qed

lemma length_hexDigest: "length (hexDigest d) = 2 * length d"
  unfolding hexDigest_concat by (induction d) simp_all

lemma Sha256_hello_world:
  "Sha256_hash ''hello world'' =
     [0xb9, 0x4d, 0x27, 0xb9, 0x93, 0x4d, 0x3e, 0x08, 0xa5, 0x2e, 0x52, 0xd7,
      0xda, 0x7d, 0xab, 0xfa, 0xc4, 0x84, 0xef, 0xe3, 0x7a, 0x53, 0x80, 0xee,
      0x90, 0x88, 0xf7, 0xac, 0xe2, 0xef, 0xcd, 0xe9]"
  by code_simp

lemma hexDigest_hello_world:
  "hexDigest
     [0xb9, 0x4d, 0x27, 0xb9, 0x93, 0x4d, 0x3e, 0x08, 0xa5, 0x2e, 0x52, 0xd7,
      0xda, 0x7d, 0xab, 0xfa, 0xc4, 0x84, 0xef, 0xe3, 0x7a, 0x53, 0x80, 0xee,
      0x90, 0x88, 0xf7, 0xac, 0xe2, 0xef, 0xcd, 0xe9] =
   ''b94d27b9934d3e08a52e52d7da7dabfac484efe37a5380ee9088f7ace2efcde9''"
  by code_simp

section \<open>The claims\<close>

text \<open>
  C1. For every non-empty input \<open>s\<close> and every chunk size \<open>c \<ge> 1\<close>, the
  constructor returns a tree with a root whose \<^verbatim>\<open>chunk_size\<close> is the length of
  \<open>s\<close> and whose \<^verbatim>\<open>chunk_offset\<close> is 0, whatever the hash and whatever the store
  held before. The sizes are those the code can handle: a chunk size below \<open>2^63\<close>,
  for which the buffer can be made, a string of fewer than \<open>2^64\<close> bytes, and fewer
  than \<open>2^31\<close> leaves, the number of chunks being the length of \<open>s\<close> divided by
  \<open>c\<close> and rounded up.
\<close>

theorem root_spans_input:
  assumes "s \<noteq> []" and "1 \<le> c" and "c < 2 ^ 63" and "length s < 2 ^ 64"
    and "(length s + c - 1) div c < 2 ^ 31"
  shows "\<exists>h' t r. MerkleTree_ctor hash h s c = Some (Inr (h', t)) \<and> root t = Some r
           \<and> r < length h'
           \<and> chunk_size (data (h' ! r)) = length s \<and> chunk_offset (data (h' ! r)) = 0"
proof -
  have c: "0 < c" using assms(2) by simp
  have cm: "c \<le> max_size" using assms(3) by (simp add: max_size_def)
  let ?ds = "leaf_data hash 0 (chunks c s)"
  let ?h = "h @ map leaf_node ?ds" and ?lv = "[length h ..< length h + length (chunks c s)]"
  have ne: "?ds \<noteq> []"
    using chunks_nonempty[OF c assms(1)] length_leaf_data[of hash 0 "chunks c s"] by auto
  have v: "valid_level ?h ?lv"
    using leaves_valid[OF ne, of h] by (simp add: length_leaf_data)
  have b: "length ?lv \<le> INT_MAX"
    using assms(5) by (simp add: length_chunks[OF c] INT_MAX_def)
  have t: "tiles 0 (level_data ?h ?lv) (length s)"
    using tiles_leaf_data[of 0 hash "chunks c s"] leaves_level[of h ?ds]
    by (simp add: length_leaf_data concat_chunks[OF c])
  from make_tree_root[OF v b t assms(4), of hash] obtain h' r where
    "make_tree hash ?h ?lv = Inr (h', r)" "r < length h'"
    "chunk_offset (data (h' ! r)) = 0" "chunk_size (data (h' ! r)) = length s"
    by blast
  then show ?thesis
    by (simp add: MerkleTree_ctor_def generate_leaves_closed[OF c cm assms(4)])
qed

theorem root_spans_input_witness:
  "''ab'' \<noteq> [] \<and> (1::nat) \<le> 1 \<and> (1::nat) < 2 ^ 63 \<and> length ''ab'' < (2::nat) ^ 64
   \<and> (length ''ab'' + 1 - 1) div 1 < (2::nat) ^ 31 \<and>
   (\<exists>h' t r. MerkleTree_ctor Sha256_hash [] ''ab'' 1 = Some (Inr (h', t)) \<and> root t = Some r
      \<and> r < length h'
      \<and> chunk_size (data (h' ! r)) = length ''ab'' \<and> chunk_offset (data (h' ! r)) = 0)"
  using root_spans_input [of "''ab''" 1 Sha256_hash "[]"] by simp

text \<open>
  C2, as the code has it. With a chunk size of 0 the constructor checks nothing and
  returns no error: one run of the body of the reading loop leaves the state as it
  was, so that no byte is read and no leaf is appended.
\<close>

theorem zero_chunk_size_reads_nothing:
  "generate_leaves_body hash 0
       \<lparr>stream = istringstream_ctor s, nodes = h, result = [], read_offset = 0\<rparr>
     = \<lparr>stream = istringstream_ctor s, nodes = h, result = [], read_offset = 0\<rparr>
   \<and> MerkleTree_ctor hash h s 0 \<noteq> Some (Inl e)"
  by (simp add: zero_chunk_body good_def istringstream_ctor_def eof_def
        MerkleTree_ctor_def generate_leaves_zero_chunk[unfolded istringstream_ctor_def])

text \<open>
  C2 as stated fails: on the input \<open>''a''\<close> with chunk size 0 the constructor does
  not return, neither with an error nor with a tree.
\<close>

theorem zero_chunk_size_counterexample:
  "MerkleTree_ctor Sha256_hash [] ''a'' 0 = None"
  by (simp add: MerkleTree_ctor_def generate_leaves_zero_chunk)

text \<open>
  C3 at the empty input: for every chunk size \<open>c + 1\<close> for which the buffer can be
  made no leaf is produced, the reduction loop does not run, and the assertion
  \<^verbatim>\<open>tree.back().size() == 1\<close> fails on the empty last level. No tree without a
  root is returned.
\<close>

theorem empty_input_aborts:
  assumes "Suc c < 2 ^ 63"
  shows "generate_leaves hash (Suc c) h (istringstream_ctor []) = Some (Inr (h, []))
   \<and> MerkleTree_ctor hash h [] (Suc c) = Some (Inl AssertionFailure)"
proof -
  have cm: "Suc c \<le> max_size" using assms by (simp add: max_size_def)
  have ch: "chunks (Suc c) [] = []" by (subst chunks.simps) simp
  have lp: "make_tree_loop hash 0 0 (h, [[]]) = Inr (h, [[]])"
    by (subst make_tree_loop.simps) (simp add: below_tree_height_def)
  show ?thesis
    using cm by (simp add: MerkleTree_ctor_def generate_leaves_closed ch make_tree_def lp)
qed

theorem empty_input_aborts_witness:
  "Suc 0 < 2 ^ 63
   \<and> generate_leaves Sha256_hash (Suc 0) [] (istringstream_ctor []) = Some (Inr ([], []))
   \<and> MerkleTree_ctor Sha256_hash [] [] (Suc 0) = Some (Inl AssertionFailure)"
  using empty_input_aborts [of 0 Sha256_hash "[]"] by simp

text \<open>
  C4 at the input \<open>''ab''\<close> with chunk size 1. The tree has two leaves, at the
  addresses 0 and 1, and the root at 2 with the leaves as its children.
  \<^verbatim>\<open>make_tree\<close> assigns \<^verbatim>\<open>left\<close> and \<^verbatim>\<open>right\<close> and never
  \<^verbatim>\<open>parent\<close>: the parent pointer of both leaves is null, and \<^verbatim>\<open>isRoot\<close> holds of
  all three nodes.
\<close>

theorem parent_never_assigned:
  "\<exists>n0 n1 n2.
     MerkleTree_ctor hash [] ''ab'' 1 = Some (Inr ([n0, n1, n2], \<lparr>m_ChunkSize = 1, root = Some 2\<rparr>))
     \<and> left n2 = Some 0 \<and> right n2 = Some 1
     \<and> parent n0 = None \<and> parent n1 = None \<and> parent n2 = None
     \<and> isRoot n0 \<and> isRoot n1 \<and> isRoot n2"
  using ctor_two_chunks [of hash "CHR ''a''" "CHR ''b''"] by (simp add: isRoot_def)

text \<open>
  C5. Let the hash give digests of \<open>L\<close> bytes. Every node that a construction adds
  to the store and that is not a leaf has two children in the store; its digest is
  the hash of the left child's digest followed by the right child's, a buffer of
  \<open>2 * L\<close> bytes, each byte of the two digests becoming the character with the
  same bits; its offset is the left child's offset and its span the sum of the
  children's spans, which does not wrap. The input has fewer than \<open>2^64\<close> bytes;
  a construction that returns a tree had a chunk size and a number of leaves the
  code can handle.
\<close>

theorem internal_node_data:
  assumes ctor: "MerkleTree_ctor hash h s c = Some (Inr (h', t))"
    and len: "\<And>x. length (hash x) = L"
    and a: "length h \<le> a" "a < length h'" and int: "\<not> isLeaf (h' ! a)"
    and ls: "length s < 2 ^ 64"
  shows "\<exists>l r. left (h' ! a) = Some l \<and> right (h' ! a) = Some r
           \<and> l < length h' \<and> r < length h'
           \<and> checksum (data (h' ! a)) =
               hash (string_of_bytes (checksum (data (h' ! l)) @ checksum (data (h' ! r))))
           \<and> length (string_of_bytes (checksum (data (h' ! l)) @ checksum (data (h' ! r))))
               = 2 * L
           \<and> map of_char (string_of_bytes (checksum (data (h' ! l)) @ checksum (data (h' ! r))))
               = checksum (data (h' ! l)) @ checksum (data (h' ! r))
           \<and> length (checksum (data (h' ! l))) = L \<and> length (checksum (data (h' ! r))) = L
           \<and> chunk_offset (data (h' ! a)) = chunk_offset (data (h' ! l))
           \<and> chunk_size (data (h' ! a)) = chunk_size (data (h' ! l)) + chunk_size (data (h' ! r))"
proof -
  have ok: "heap_ok hash L (length h) h'" using ctor_heap_ok[OF len ctor ls] by simp
  have na: "node_ok hash L (length h) h' a" by (rule heap_okD[OF ok a(1,2)])
  then obtain l r where lr: "left (h' ! a) = Some l" "right (h' ! a) = Some r"
    "length h \<le> l" "l < a" "length h \<le> r" "r < a"
    "data (h' ! a) = parent_data hash (data (h' ! l)) (data (h' ! r))"
    "chunk_size (data (h' ! l)) + chunk_size (data (h' ! r)) < 2 ^ 64"
    using int by (auto simp: node_ok_def isLeaf_def split: option.splits)
  have "node_ok hash L (length h) h' l" "node_ok hash L (length h) h' r"
    using lr a by (auto intro!: heap_okD[OF ok])
  then have "length (checksum (data (h' ! l))) = L" "length (checksum (data (h' ! r))) = L"
    by (simp_all add: node_ok_def)
  then show ?thesis
    using lr a
    by (simp add: parent_data_def to_size_t_id length_string_of_bytes bytes_of_string_of_bytes)
qed

theorem internal_node_data_witness:
  "MerkleTree_ctor Sha256_hash [] ''ab'' 1 =
     Some (Inr ([\<lparr>data = \<lparr>checksum = Sha256_hash ''a'', chunk_offset = 0, chunk_size = 1\<rparr>,
                  parent = None, left = None, right = None\<rparr>,
                 \<lparr>data = \<lparr>checksum = Sha256_hash ''b'', chunk_offset = 1, chunk_size = 1\<rparr>,
                  parent = None, left = None, right = None\<rparr>,
                 \<lparr>data = \<lparr>checksum = Sha256_hash
                              (string_of_bytes (Sha256_hash ''a'' @ Sha256_hash ''b'')),
                           chunk_offset = 0, chunk_size = 2\<rparr>,
                  parent = None, left = Some 0, right = Some 1\<rparr>],
                \<lparr>m_ChunkSize = 1, root = Some 2\<rparr>))
   \<and> length ([] :: heap) \<le> 2 \<and> (2::nat) < 3 \<and> length ''ab'' < (2::nat) ^ 64
   \<and> length (string_of_bytes (Sha256_hash ''a'' @ Sha256_hash ''b'')) = 2 * 32
   \<and> map of_char (string_of_bytes (Sha256_hash ''a'' @ Sha256_hash ''b''))
       = Sha256_hash ''a'' @ Sha256_hash ''b''"
proof -
  let ?h = "[\<lparr>data = \<lparr>checksum = Sha256_hash ''a'', chunk_offset = 0, chunk_size = 1\<rparr>,
                  parent = None, left = None, right = None\<rparr>,
                 \<lparr>data = \<lparr>checksum = Sha256_hash ''b'', chunk_offset = 1, chunk_size = 1\<rparr>,
                  parent = None, left = None, right = None\<rparr>,
                 \<lparr>data = \<lparr>checksum = Sha256_hash
                              (string_of_bytes (Sha256_hash ''a'' @ Sha256_hash ''b'')),
                           chunk_offset = 0, chunk_size = 2\<rparr>,
                  parent = None, left = Some 0, right = Some 1\<rparr>]"
  have ctor: "MerkleTree_ctor Sha256_hash [] ''ab'' 1
      = Some (Inr (?h, \<lparr>m_ChunkSize = 1, root = Some 2\<rparr>))"
    by (rule ctor_two_chunks)
  have a: "length ([] :: heap) \<le> 2" "2 < length ?h" "\<not> isLeaf (?h ! 2)"
    "length ''ab'' < (2::nat) ^ 64"
    by (simp_all add: isLeaf_def)
  from internal_node_data [OF ctor length_Sha256_hash a]
  show ?thesis using ctor by simp
qed

text \<open>
  C6. One pass over a level of odd size adds one node for each pair
  \<open>(prev ! (2 * j), prev ! (2 * j + 1))\<close> and none for the last node of the level:
  that node is the last of the next level, and it is in the store as it was, with
  its digest, offset and span. Three leaves reduce to \<open>P0\<close>, the parent of the first
  two, and the third leaf, and then to the root, the parent of \<open>P0\<close> and the third
  leaf, whose span is the sum of the three spans. The level has fewer than
  \<open>2^31\<close> nodes, which the counter of the loop can count, and the three spans
  have a sum below \<open>2^64\<close>, which does not wrap.
\<close>

theorem odd_tail_carried:
  assumes v: "valid_level h prev" and odd: "odd (length prev)"
    and b: "length prev < 2 ^ 31"
    and sum: "chunk_size d0 + chunk_size d1 + chunk_size d2 < 2 ^ 64"
  shows "(\<exists>h' level. reduce_level hash h prev = Inr (h', level)
            \<and> length h' = length h + length prev div 2
            \<and> length level = length prev div 2 + 1
            \<and> last level = last prev
            \<and> h' ! last prev = h ! last prev
            \<and> list_all (\<lambda>j. level ! j = length h + j
                     \<and> left (h' ! (level ! j)) = Some (prev ! (2 * j))
                     \<and> right (h' ! (level ! j)) = Some (prev ! (2 * j + 1)))
                  [0 ..< length prev div 2])
       \<and> make_tree_loop hash 3 0 ([leaf_node d0, leaf_node d1, leaf_node d2], [[0, 1, 2]]) =
           Inr ([leaf_node d0, leaf_node d1, leaf_node d2,
                 \<lparr>data = parent_data hash d0 d1, parent = None, left = Some 0, right = Some 1\<rparr>,
                 \<lparr>data = parent_data hash (parent_data hash d0 d1) d2,
                  parent = None, left = Some 3, right = Some 2\<rparr>],
                [[0, 1, 2], [3, 2], [4]])
       \<and> chunk_size (parent_data hash (parent_data hash d0 d1) d2)
           = chunk_size d0 + chunk_size d1 + chunk_size d2"
proof -
  have ne: "prev \<noteq> []" using v by (simp add: valid_level_def)
  have bi: "length prev \<le> INT_MAX" using b by (simp add: INT_MAX_def)
  have l: "last prev < length h" using v ne by (simp add: valid_levelD)
  have len: "length (level_above h prev) = length prev div 2 + 1"
    using odd by (simp add: level_above_def odd_iff_mod_2_eq_one)
  have "list_all (\<lambda>j. level_above h prev ! j = length h + j
                     \<and> left (heap_above hash h prev ! (level_above h prev ! j)) = Some (prev ! (2 * j))
                     \<and> right (heap_above hash h prev ! (level_above h prev ! j)) = Some (prev ! (2 * j + 1)))
                  [0 ..< length prev div 2]"
    by (simp add: list_all_iff level_above_def nth_append heap_above_new pairs_nth
          parent_node_def)
  then have first: "\<exists>h' level. reduce_level hash h prev = Inr (h', level)
            \<and> length h' = length h + length prev div 2
            \<and> length level = length prev div 2 + 1
            \<and> last level = last prev
            \<and> h' ! last prev = h ! last prev
            \<and> list_all (\<lambda>j. level ! j = length h + j
                     \<and> left (h' ! (level ! j)) = Some (prev ! (2 * j))
                     \<and> right (h' ! (level ! j)) = Some (prev ! (2 * j + 1)))
                  [0 ..< length prev div 2]"
    using len l odd
    by (intro exI[of _ "heap_above hash h prev"] exI[of _ "level_above h prev"])
       (simp add: reduce_level_closed[OF v bi] length_heap_above heap_above_old,
        simp add: level_above_def odd_iff_mod_2_eq_one)
  have three: "make_tree_loop hash 3 0 ([leaf_node d0, leaf_node d1, leaf_node d2], [[0, 1, 2]]) =
           Inr ([leaf_node d0, leaf_node d1, leaf_node d2,
                 \<lparr>data = parent_data hash d0 d1, parent = None, left = Some 0, right = Some 1\<rparr>,
                 \<lparr>data = parent_data hash (parent_data hash d0 d1) d2,
                  parent = None, left = Some 3, right = Some 2\<rparr>],
                [[0, 1, 2], [3, 2], [4]])"
    by (simp add: make_tree_loop_step make_tree_loop_stop below_tree_height_def
          valid_level_def heap_above_def level_above_def parent_node_def leaf_node_def
          INT_MAX_def)
  have "chunk_size (parent_data hash (parent_data hash d0 d1) d2)
           = chunk_size d0 + chunk_size d1 + chunk_size d2"
    using sum by (simp add: parent_data_def to_size_t_id)
  with first three show ?thesis by blast
qed

theorem odd_tail_carried_witness:
  "valid_level
     [leaf_node \<lparr>checksum = Sha256_hash ''a'', chunk_offset = 0, chunk_size = 1\<rparr>,
      leaf_node \<lparr>checksum = Sha256_hash ''b'', chunk_offset = 1, chunk_size = 1\<rparr>,
      leaf_node \<lparr>checksum = Sha256_hash ''c'', chunk_offset = 2, chunk_size = 1\<rparr>]
     [0, 1, 2]
   \<and> odd (length [0, 1, 2::nat]) \<and> length [0, 1, 2::nat] < 2 ^ 31
   \<and> chunk_size \<lparr>checksum = Sha256_hash ''a'', chunk_offset = 0, chunk_size = 1\<rparr>
       + chunk_size \<lparr>checksum = Sha256_hash ''b'', chunk_offset = 1, chunk_size = 1\<rparr>
       + chunk_size \<lparr>checksum = Sha256_hash ''c'', chunk_offset = 2, chunk_size = 1\<rparr> < 2 ^ 64
   \<and> (\<exists>h' level. reduce_level Sha256_hash
         [leaf_node \<lparr>checksum = Sha256_hash ''a'', chunk_offset = 0, chunk_size = 1\<rparr>,
      leaf_node \<lparr>checksum = Sha256_hash ''b'', chunk_offset = 1, chunk_size = 1\<rparr>,
      leaf_node \<lparr>checksum = Sha256_hash ''c'', chunk_offset = 2, chunk_size = 1\<rparr>]
         [0, 1, 2] = Inr (h', level)
        \<and> last level = last [0, 1, 2]
        \<and> h' ! last [0, 1, 2] = [leaf_node \<lparr>checksum = Sha256_hash ''a'', chunk_offset = 0, chunk_size = 1\<rparr>,
      leaf_node \<lparr>checksum = Sha256_hash ''b'', chunk_offset = 1, chunk_size = 1\<rparr>,
      leaf_node \<lparr>checksum = Sha256_hash ''c'', chunk_offset = 2, chunk_size = 1\<rparr>] ! last [0, 1, 2])"
proof -
  have v: "valid_level
     [leaf_node \<lparr>checksum = Sha256_hash ''a'', chunk_offset = 0, chunk_size = 1\<rparr>,
      leaf_node \<lparr>checksum = Sha256_hash ''b'', chunk_offset = 1, chunk_size = 1\<rparr>,
      leaf_node \<lparr>checksum = Sha256_hash ''c'', chunk_offset = 2, chunk_size = 1\<rparr>]
     [0, 1, 2]"
    by (simp add: valid_level_def)
  have o: "odd (length [0, 1, 2::nat])" "length [0, 1, 2::nat] < 2 ^ 31"
    "chunk_size \<lparr>checksum = Sha256_hash ''a'', chunk_offset = 0, chunk_size = 1\<rparr>
       + chunk_size \<lparr>checksum = Sha256_hash ''b'', chunk_offset = 1, chunk_size = 1\<rparr>
       + chunk_size \<lparr>checksum = Sha256_hash ''c'', chunk_offset = 2, chunk_size = 1\<rparr> < 2 ^ 64"
    by simp_all
  from odd_tail_carried [OF v o, of Sha256_hash] v o show ?thesis by blast
qed

text \<open>
  C7. Two trees are equal exactly when both have a root and the two root nodes agree
  on \<^verbatim>\<open>isRoot\<close>, on \<^verbatim>\<open>isLeaf\<close> and on digest, offset and span; nothing below
  the roots is looked at, so two roots with the same data and different children
  are equal. A tree without a root is equal to no tree, not to another tree without
  a root and not to itself.
\<close>

theorem tree_equality:
  "MerkleTree_eq h t other =
     (\<exists>r r'. root t = Some r \<and> root other = Some r'
         \<and> isRoot (h ! r) = isRoot (h ! r') \<and> isLeaf (h ! r) = isLeaf (h ! r')
         \<and> checksum (data (h ! r)) = checksum (data (h ! r'))
         \<and> chunk_offset (data (h ! r)) = chunk_offset (data (h ! r'))
         \<and> chunk_size (data (h ! r)) = chunk_size (data (h ! r')))
   \<and> \<not> MerkleTree_eq h \<lparr>m_ChunkSize = c, root = None\<rparr> other
   \<and> \<not> MerkleTree_eq h other \<lparr>m_ChunkSize = c, root = None\<rparr>
   \<and> \<not> MerkleTree_eq h \<lparr>m_ChunkSize = c, root = None\<rparr> \<lparr>m_ChunkSize = c, root = None\<rparr>
   \<and> MerkleTree_eq
         [na, nb, \<lparr>data = d, parent = None, left = Some 0, right = Some 1\<rparr>,
                  \<lparr>data = d, parent = None, left = Some 1, right = Some 0\<rparr>]
         \<lparr>m_ChunkSize = c, root = Some 2\<rparr> \<lparr>m_ChunkSize = c', root = Some 3\<rparr>"
  by (auto simp: MerkleTree_eq_def MerkleNode_eq_def MerkleNodeData_eq_def isRoot_def isLeaf_def
        split: option.splits)

text \<open>
  C8. For a level of \<open>n \<ge> 1\<close> leaves in the store, the loop of \<^verbatim>\<open>make_tree\<close>
  returns after \<open>\<lceil>log2 n\<rceil>\<close> passes (the vector \<^verbatim>\<open>tree\<close> holds the leaves and one
  level for each pass), each level has half the size of the level below, rounded up,
  the last level has one node, the assertion holds and that node is the root. For a
  single leaf no pass runs, the store is unchanged and the leaf is the root. There are
  fewer than \<open>2^31\<close> leaves: the counter of the inner loop can count them, and the
  comparison with \<^verbatim>\<open>std::log2\<close> in \<^verbatim>\<open>double\<close> is exact for them.
\<close>

theorem reduction_passes:
  assumes "valid_level h leaves" and "length leaves < 2 ^ 31"
  shows "(\<exists>h' tree. make_tree_loop hash (length leaves) 0 (h, [leaves]) = Inr (h', tree)
            \<and> hd tree = leaves
            \<and> length tree = 1 + nat \<lceil>log 2 (real (length leaves))\<rceil>
            \<and> list_all (\<lambda>j. int (length (tree ! Suc j)) = \<lceil>real (length (tree ! j)) / 2\<rceil>)
                  [0 ..< length tree - 1]
            \<and> length (last tree) = 1
            \<and> make_tree hash h leaves = Inr (h', hd (last tree)))
       \<and> make_tree_loop hash (length [a]) 0 (g, [[a]]) = Inr (g, [[a]])
       \<and> make_tree hash g [a] = Inr (g, a)"
proof -
  have b: "length leaves \<le> INT_MAX" using assms(2) by (simp add: INT_MAX_def)
  from make_tree_loop_levels[OF assms(1) b, of hash] obtain h' tree k where
    r: "make_tree_loop hash (length leaves) 0 (h, [leaves]) = Inr (h', tree)"
       "length tree = k + 1" "hd tree = leaves"
       "list_all (\<lambda>j. length (tree ! Suc j) = (length (tree ! j) + 1) div 2) [0 ..< k]"
       "length (last tree) = 1"
       "length leaves \<le> 2 ^ k" "k = 0 \<or> 2 ^ (k - 1) < length leaves"
    by blast
  have "0 < length leaves" using assms(1) by (simp add: valid_level_def)
  from ceiling_log2[OF r(6,7) this] have k: "nat \<lceil>log 2 (real (length leaves))\<rceil> = k" .
  have "list_all (\<lambda>j. int (length (tree ! Suc j)) = \<lceil>real (length (tree ! j)) / 2\<rceil>)
          [0 ..< length tree - 1]"
    using r(4) by (simp add: r(2) ceiling_half list_all_iff)
  moreover have "make_tree hash h leaves = Inr (h', hd (last tree))"
    using r(1,5) by (simp add: make_tree_def)
  ultimately have first: "\<exists>h' tree. make_tree_loop hash (length leaves) 0 (h, [leaves]) = Inr (h', tree)
            \<and> hd tree = leaves
            \<and> length tree = 1 + nat \<lceil>log 2 (real (length leaves))\<rceil>
            \<and> list_all (\<lambda>j. int (length (tree ! Suc j)) = \<lceil>real (length (tree ! j)) / 2\<rceil>)
                  [0 ..< length tree - 1]
            \<and> length (last tree) = 1
            \<and> make_tree hash h leaves = Inr (h', hd (last tree))"
    using r(1,2,3,5) k by (intro exI[of _ h'] exI[of _ tree]) simp
  have one: "make_tree_loop hash (length [a]) 0 (g, [[a]]) = Inr (g, [[a]])"
    by (rule make_tree_loop_stop) (simp add: below_tree_height_def)
  then have "make_tree hash g [a] = Inr (g, a)"
    by (simp add: make_tree_def)
  with first one show ?thesis by blast
qed

theorem reduction_passes_witness:
  "valid_level
     [leaf_node \<lparr>checksum = Sha256_hash ''a'', chunk_offset = 0, chunk_size = 1\<rparr>,
      leaf_node \<lparr>checksum = Sha256_hash ''b'', chunk_offset = 1, chunk_size = 1\<rparr>,
      leaf_node \<lparr>checksum = Sha256_hash ''c'', chunk_offset = 2, chunk_size = 1\<rparr>]
     [0, 1, 2]
   \<and> length [0, 1, 2::nat] < 2 ^ 31
   \<and> (\<exists>h' tree. make_tree_loop Sha256_hash (length [0, 1, 2::nat]) 0
         ([leaf_node \<lparr>checksum = Sha256_hash ''a'', chunk_offset = 0, chunk_size = 1\<rparr>,
      leaf_node \<lparr>checksum = Sha256_hash ''b'', chunk_offset = 1, chunk_size = 1\<rparr>,
      leaf_node \<lparr>checksum = Sha256_hash ''c'', chunk_offset = 2, chunk_size = 1\<rparr>],
          [[0, 1, 2]]) = Inr (h', tree)
        \<and> length tree = 1 + nat \<lceil>log 2 (real (length [0, 1, 2::nat]))\<rceil>
        \<and> length (last tree) = 1)"
proof -
  have v: "valid_level
     [leaf_node \<lparr>checksum = Sha256_hash ''a'', chunk_offset = 0, chunk_size = 1\<rparr>,
      leaf_node \<lparr>checksum = Sha256_hash ''b'', chunk_offset = 1, chunk_size = 1\<rparr>,
      leaf_node \<lparr>checksum = Sha256_hash ''c'', chunk_offset = 2, chunk_size = 1\<rparr>]
     [0, 1, 2]"
    by (simp add: valid_level_def)
  have b: "length [0, 1, 2::nat] < 2 ^ 31" by simp
  from reduction_passes [OF v b, of Sha256_hash 0 "[]"] v b show ?thesis by blast
qed

text \<open>
  C9. For a non-empty input \<open>s\<close> and a chunk size of at least its length, exactly one
  leaf is produced, the only node added to the store, and it is the root: its digest
  is \<open>hash s\<close>, its offset 0, its span the length of \<open>s\<close>, and it has no children.
  The chunk size is below \<open>2^63\<close>, so that the buffer can be made.
\<close>

theorem single_chunk_is_root:
  assumes "s \<noteq> []" and "length s \<le> c" and "c < 2 ^ 63"
  shows "generate_leaves hash c h (istringstream_ctor s) =
           Some (Inr (h @ [\<lparr>data = \<lparr>checksum = hash s, chunk_offset = 0, chunk_size = length s\<rparr>,
                        parent = None, left = None, right = None\<rparr>], [length h]))
       \<and> MerkleTree_ctor hash h s c =
           Some (Inr (h @ [\<lparr>data = \<lparr>checksum = hash s, chunk_offset = 0, chunk_size = length s\<rparr>,
                             parent = None, left = None, right = None\<rparr>],
                      \<lparr>m_ChunkSize = c, root = Some (length h)\<rparr>))"
proof -
  have c: "0 < c" using assms by (cases s) auto
  have cm: "c \<le> max_size" using assms(3) by (simp add: max_size_def)
  have ls: "length s < 2 ^ 64" using assms(2,3) by simp
  have ch: "chunks c s = [s]" using chunks_short[OF c assms(2)] assms(1) by simp
  have lp: "make_tree_loop hash (Suc 0) 0 (h', [[a]]) = Inr (h', [[a]])" for h' a
    by (subst make_tree_loop.simps) (simp add: below_tree_height_def)
  show ?thesis
    by (simp add: MerkleTree_ctor_def generate_leaves_closed[OF c cm ls] ch leaf_node_def
          make_tree_def lp)
qed

theorem single_chunk_is_root_witness:
  "''ab'' \<noteq> [] \<and> length ''ab'' \<le> (5::nat) \<and> (5::nat) < 2 ^ 63 \<and>
   MerkleTree_ctor Sha256_hash [] ''ab'' 5 =
     Some (Inr ([\<lparr>data = \<lparr>checksum = Sha256_hash ''ab'', chunk_offset = 0, chunk_size = 2\<rparr>,
                   parent = None, left = None, right = None\<rparr>],
                \<lparr>m_ChunkSize = 5, root = Some 0\<rparr>))"
  using single_chunk_is_root [of "''ab''" 5 Sha256_hash "[]"] by simp

text \<open>
  C10. \<^verbatim>\<open>hexDigest\<close> is the concatenation, in the order of the bytes, of two
  characters for each byte: the digit of its upper four bits and the digit of its
  lower four bits, taken from \<open>0123456789abcdef\<close>. Its length is twice the number
  of bytes, 64 for a SHA-256 digest of \<open>256 / 8 = 32\<close> bytes, and for the input
  \<open>hello world\<close> it is the SHA-256 reference digest in hexadecimal.
\<close>

theorem hexDigest_rendering:
  "hexDigest d = concat (map (\<lambda>b. [hex_digit (unat b div 16), hex_digit (unat b mod 16)]) d)
   \<and> list_all (\<lambda>c. c \<in> set ''0123456789abcdef'') (hexDigest d)
   \<and> length (hexDigest d) = 2 * length d
   \<and> length (Sha256_hash x) = size_bytes 256
   \<and> length (hexDigest (Sha256_hash x)) = 64
   \<and> hexDigest (Sha256_hash ''hello world'') =
       ''b94d27b9934d3e08a52e52d7da7dabfac484efe37a5380ee9088f7ace2efcde9''"
proof -
  have "hexDigest (Sha256_hash ''hello world'') =
       ''b94d27b9934d3e08a52e52d7da7dabfac484efe37a5380ee9088f7ace2efcde9''"
    unfolding Sha256_hello_world by (rule hexDigest_hello_world)
  moreover have "length (Sha256_hash x) = size_bytes 256"
    by (simp add: length_Sha256_hash size_bytes_def)
  moreover have "length (hexDigest (Sha256_hash x)) = 64"
    by (simp add: length_hexDigest length_Sha256_hash)
  ultimately show ?thesis
    using hexDigest_concat [of d] hexDigest_chars [of d] length_hexDigest [of d] by blast
qed

end
